theory Spec2Isabelle
  imports Main "HOL-Library.Word"
begin

section \<open>score.c: the score tracker\<close>

text \<open>
  The two static variables of score.c, \<^verbatim>\<open>uint32_t score\<close> and
  \<^verbatim>\<open>uint8_t cleared_rows\<close>, and the six functions that are the only
  code touching them.
\<close>

record score_state =
  score :: "32 word"
  cleared_rows :: "8 word"

definition init_score :: "score_state \<Rightarrow> score_state" where
  "init_score t = t\<lparr>score := 0\<rparr>"

definition add_to_score :: "16 word \<Rightarrow> score_state \<Rightarrow> score_state" where
  "add_to_score v t = t\<lparr>score := score t + ucast v\<rparr>"

definition get_score :: "score_state \<Rightarrow> 32 word" where
  "get_score t = score t"

definition init_cleared_rows :: "score_state \<Rightarrow> score_state" where
  "init_cleared_rows t = t\<lparr>cleared_rows := 0\<rparr>"

definition increment_cleared_rows :: "score_state \<Rightarrow> score_state" where
  "increment_cleared_rows t =
     (if cleared_rows t < 99 then t\<lparr>cleared_rows := cleared_rows t + 1\<rparr> else t)"

definition get_cleared_rows :: "score_state \<Rightarrow> 8 word" where
  "get_cleared_rows t = cleared_rows t"

section \<open>project.c: the collaborators of the game loop\<close>

text \<open>
  \<^verbatim>\<open>play_game\<close> talks to code outside project.c and score.c: the millisecond clock
  (timer0.c), the button queue (buttons.c), the serial input buffer (serialio.c), the
  analogue-to-digital converter, and the board (game.c). Each of them is an argument of
  the model.
\<close>

datatype move_dir = MOVE_LEFT | MOVE_RIGHT

text \<open>The calls \<^verbatim>\<open>play_game\<close> makes to the board, in the order it makes them.\<close>

datatype board_call =
    AttemptMove move_dir
  | AttemptRotation
  | AttemptDropOneRow
  | FixBlockAndAddNew

text \<open>
  The board is deterministic and only \<^verbatim>\<open>play_game\<close> calls it during a game, so what
  a call returns is a function of the calls made before it. \<open>clock_value k\<close> is what the
  \<open>k\<close>-th call of \<^verbatim>\<open>get_clock_ticks()\<close> returns: the timer interrupt may advance
  the clock between any two reads. \<open>fix_clears\<close> is the number of times
  \<^verbatim>\<open>fix_block_to_board_and_add_new_block()\<close> calls \<^verbatim>\<open>increment_cleared_rows()\<close>.
\<close>

record collaborators =
  clock_value :: "nat \<Rightarrow> 32 word"
  drop_succeeds :: "board_call list \<Rightarrow> bool"
  fix_succeeds :: "board_call list \<Rightarrow> bool"
  fix_clears :: "board_call list \<Rightarrow> nat"

text \<open>
  The state \<^verbatim>\<open>play_game\<close> reads and writes: its own locals, the globals of project.c
  (\<^verbatim>\<open>joystick_time\<close>, \<^verbatim>\<open>target_pin\<close>, \<^verbatim>\<open>stick_x\<close>, \<^verbatim>\<open>stick_y\<close>), the statics of
  score.c, the two input queues, the number of clock reads made so far and the calls made
  to the board so far. \<^verbatim>\<open>paused\<close> is a \<^verbatim>\<open>uint8_t\<close> that only ever holds 0 or 1 and
  is only tested for truth.
\<close>

record game_state =
  last_drop_time :: "32 word"
  characters_into_escape_sequence :: "8 word"
  paused :: bool
  paused_time :: "32 word"
  joystick_time :: "32 word"
  target_pin :: "8 word"
  stick_x :: "16 word"
  stick_y :: "16 word"
  tracker :: score_state
  button_queue :: "8 word list"
  serial_queue :: "8 word list"
  clock_reads :: nat
  calls :: "board_call list"

text \<open>The characters the loop compares its input with (\<^verbatim>\<open>char\<close> is 8 bits wide).\<close>

abbreviation ESCAPE_CHAR :: "8 word" where "ESCAPE_CHAR \<equiv> 27"
abbreviation char_lbracket :: "8 word" where "char_lbracket \<equiv> 91"
abbreviation char_A :: "8 word" where "char_A \<equiv> 65"
abbreviation char_B :: "8 word" where "char_B \<equiv> 66"
abbreviation char_C :: "8 word" where "char_C \<equiv> 67"
abbreviation char_D :: "8 word" where "char_D \<equiv> 68"
abbreviation char_space :: "8 word" where "char_space \<equiv> 32"
abbreviation char_p :: "8 word" where "char_p \<equiv> 112"
abbreviation char_P :: "8 word" where "char_P \<equiv> 80"

text \<open>\<^verbatim>\<open>-1\<close> in an \<^verbatim>\<open>int8_t\<close> or a \<^verbatim>\<open>char\<close>: nothing there.\<close>

abbreviation no_input :: "8 word" where "no_input \<equiv> - 1"

definition get_clock_ticks :: "collaborators \<Rightarrow> game_state \<Rightarrow> 32 word \<times> game_state" where
  "get_clock_ticks env s =
     (clock_value env (clock_reads s), s\<lparr>clock_reads := Suc (clock_reads s)\<rparr>)"

text \<open>
  Modelled from the spec: \<^verbatim>\<open>button_pushed()\<close> of buttons.c, which is not among the
  sources. It returns the next queued button event and removes it from the queue, or -1
  when the queue is empty.
\<close>

definition button_pushed :: "game_state \<Rightarrow> 8 word \<times> game_state" where
  "button_pushed s =
     (case button_queue s of
        [] \<Rightarrow> (no_input, s)
      | b # bs \<Rightarrow> (b, s\<lparr>button_queue := bs\<rparr>))"

text \<open>
  Modelled from the spec: \<^verbatim>\<open>serial_input_available()\<close> and \<^verbatim>\<open>fgetc(stdin)\<close> of
  serialio.c, which is not among the sources: whether a byte is queued, and taking the
  next queued byte. \<^verbatim>\<open>play_game\<close> calls \<^verbatim>\<open>fgetc\<close> only after
  \<^verbatim>\<open>serial_input_available()\<close> returned true.
\<close>

definition serial_input_available :: "game_state \<Rightarrow> bool" where
  "serial_input_available s = (serial_queue s \<noteq> [])"

definition fgetc_stdin :: "game_state \<Rightarrow> 8 word \<times> game_state" where
  "fgetc_stdin s =
     (case serial_queue s of
        [] \<Rightarrow> (no_input, s)
      | c # cs \<Rightarrow> (c, s\<lparr>serial_queue := cs\<rparr>))"

text \<open>
  The board calls: each is logged, and the board says how it went. The result of
  \<^verbatim>\<open>attempt_move\<close> and \<^verbatim>\<open>attempt_rotation\<close> is thrown away by \<^verbatim>\<open>play_game\<close>.
  Of what \<^verbatim>\<open>fix_block_to_board_and_add_new_block\<close> does to the score tracker, the
  rows it counts are followed, since the timer reads them; the score it adds is not.
\<close>

definition attempt_move :: "move_dir \<Rightarrow> game_state \<Rightarrow> game_state" where
  "attempt_move d s = s\<lparr>calls := calls s @ [AttemptMove d]\<rparr>"

definition attempt_rotation :: "game_state \<Rightarrow> game_state" where
  "attempt_rotation s = s\<lparr>calls := calls s @ [AttemptRotation]\<rparr>"

definition attempt_drop_block_one_row :: "collaborators \<Rightarrow> game_state \<Rightarrow> bool \<times> game_state" where
  "attempt_drop_block_one_row env s =
     (drop_succeeds env (calls s), s\<lparr>calls := calls s @ [AttemptDropOneRow]\<rparr>)"

definition fix_block_to_board_and_add_new_block ::
    "collaborators \<Rightarrow> game_state \<Rightarrow> bool \<times> game_state" where
  "fix_block_to_board_and_add_new_block env s =
     (fix_succeeds env (calls s),
      s\<lparr>calls := calls s @ [FixBlockAndAddNew],
        tracker := (increment_cleared_rows ^^ fix_clears env (calls s)) (tracker s)\<rparr>)"

section \<open>project.c: the joystick\<close>

text \<open>
  \<^verbatim>\<open>convert_joystick\<close> stores the converter's reading in \<^verbatim>\<open>stick_x\<close> or
  \<^verbatim>\<open>stick_y\<close>, whichever \<^verbatim>\<open>target_pin\<close> selects, and selects the other for the next
  call. \<open>adc\<close> is the value read from the \<^verbatim>\<open>ADC\<close> register; the writes to
  \<^verbatim>\<open>ADMUX\<close> and \<^verbatim>\<open>ADCSRA\<close> that start the conversion, and the wait for it, are
  the converter's business and are left out.
\<close>

definition convert_joystick :: "16 word \<Rightarrow> game_state \<Rightarrow> game_state" where
  "convert_joystick adc s =
     (let s1 = (if target_pin s = 0 then s\<lparr>stick_x := adc\<rparr> else s\<lparr>stick_y := adc\<rparr>)
      in s1\<lparr>target_pin := (if target_pin s1 = 0 then 1 else 0)\<rparr>)"

text \<open>
  The four direction checks. \<^verbatim>\<open>&&\<close> evaluates its right operand, which reads the
  clock, only when the left one holds; a check that succeeds reads the clock a second
  time to set \<^verbatim>\<open>joystick_time\<close>. The word library has constants \<open>is_up\<close> and
  \<open>is_down\<close> of its own, so \<^verbatim>\<open>is_up\<close> and \<^verbatim>\<open>is_down\<close> are \<open>is_up_stick\<close> and
  \<open>is_down_stick\<close> here.
\<close>

definition is_left :: "collaborators \<Rightarrow> game_state \<Rightarrow> bool \<times> game_state" where
  "is_left env s =
     (if stick_x s > 850 then
        (let (now, s1) = get_clock_ticks env s in
         if now > joystick_time s1 + 150 then
           (let (t, s2) = get_clock_ticks env s1 in (True, s2\<lparr>joystick_time := t\<rparr>))
         else (False, s1))
      else (False, s))"

definition is_right :: "collaborators \<Rightarrow> game_state \<Rightarrow> bool \<times> game_state" where
  "is_right env s =
     (if stick_x s < 150 then
        (let (now, s1) = get_clock_ticks env s in
         if now > joystick_time s1 + 150 then
           (let (t, s2) = get_clock_ticks env s1 in (True, s2\<lparr>joystick_time := t\<rparr>))
         else (False, s1))
      else (False, s))"

definition is_up_stick :: "collaborators \<Rightarrow> game_state \<Rightarrow> bool \<times> game_state" where
  "is_up_stick env s =
     (if stick_y s > 850 then
        (let (now, s1) = get_clock_ticks env s in
         if now > joystick_time s1 + 300 then
           (let (t, s2) = get_clock_ticks env s1 in (True, s2\<lparr>joystick_time := t\<rparr>))
         else (False, s1))
      else (False, s))"

definition is_down_stick :: "collaborators \<Rightarrow> game_state \<Rightarrow> bool \<times> game_state" where
  "is_down_stick env s =
     (if stick_y s < 150 then
        (let (now, s1) = get_clock_ticks env s in
         if now > joystick_time s1 + 150 then
           (let (t, s2) = get_clock_ticks env s1 in (True, s2\<lparr>joystick_time := t\<rparr>))
         else (False, s1))
      else (False, s))"

section \<open>project.c: one pass of the loop of \<^verbatim>\<open>play_game\<close>\<close>

text \<open>
  A pass either goes on to the next one or leaves the loop by \<^verbatim>\<open>break\<close>: the game is
  over.
\<close>

datatype outcome = Continue game_state | GameOver game_state

text \<open>
  The values \<^verbatim>\<open>play_game\<close> gives its locals before the loop; \<^verbatim>\<open>last_drop_time\<close>
  starts as the current time.
\<close>

definition play_game_init :: "collaborators \<Rightarrow> game_state \<Rightarrow> game_state" where
  "play_game_init env s =
     (let s1 = s\<lparr>characters_into_escape_sequence := 0, paused := False, paused_time := 0\<rparr>;
          (now, s2) = get_clock_ticks env s1
      in s2\<lparr>last_drop_time := now\<rparr>)"

text \<open>
  Lines 190 to 221: the button queue is asked first, the serial input only when no button
  was waiting, and a serial byte goes through the escape-sequence decoder. The result is
  \<^verbatim>\<open>button\<close>, \<^verbatim>\<open>serial_input\<close> and \<^verbatim>\<open>escape_sequence_char\<close>.
\<close>

definition poll_input :: "game_state \<Rightarrow> 8 word \<times> 8 word \<times> 8 word \<times> game_state" where
  "poll_input s =
     (let (button, s1) = button_pushed s in
      if button = no_input then
        if serial_input_available s1 then
          (let (serial_input, s2) = fgetc_stdin s1 in
           if characters_into_escape_sequence s2 = 0 \<and> serial_input = ESCAPE_CHAR then
             (button, no_input, no_input,
              s2\<lparr>characters_into_escape_sequence := characters_into_escape_sequence s2 + 1\<rparr>)
           else if characters_into_escape_sequence s2 = 1 \<and> serial_input = char_lbracket then
             (button, no_input, no_input,
              s2\<lparr>characters_into_escape_sequence := characters_into_escape_sequence s2 + 1\<rparr>)
           else if characters_into_escape_sequence s2 = 2 then
             (button, no_input, serial_input, s2\<lparr>characters_into_escape_sequence := 0\<rparr>)
           else
             (button, serial_input, no_input, s2\<lparr>characters_into_escape_sequence := 0\<rparr>))
        else (button, no_input, no_input, s1)
      else (button, no_input, no_input, s1))"

text \<open>
  \<^verbatim>\<open>if(!attempt_drop_block_one_row()) { if(!fix_block_to_board_and_add_new_block()) break; }\<close>,
  as the soft drop and the timer have it.
\<close>

definition drop_or_fix :: "collaborators \<Rightarrow> game_state \<Rightarrow> outcome" where
  "drop_or_fix env s =
     (let (dropped, s1) = attempt_drop_block_one_row env s in
      if \<not> dropped then
        (let (room, s2) = fix_block_to_board_and_add_new_block env s1 in
         if \<not> room then GameOver s2 else Continue s2)
      else Continue s1)"

text \<open>\<^verbatim>\<open>last_drop_time = get_clock_ticks();\<close>\<close>

definition record_drop_time :: "collaborators \<Rightarrow> game_state \<Rightarrow> game_state" where
  "record_drop_time env s =
     (let (now, s1) = get_clock_ticks env s in s1\<lparr>last_drop_time := now\<rparr>)"

text \<open>
  \<^verbatim>\<open>while(attempt_drop_block_one_row()) {}\<close>: the loop ends when the board refuses a
  drop, and never if it never does.
\<close>

partial_function (option) drop_until_failure ::
    "collaborators \<Rightarrow> game_state \<Rightarrow> game_state option" where
  "drop_until_failure env s =
     (case attempt_drop_block_one_row env s of
        (dropped, s1) \<Rightarrow> if dropped then drop_until_failure env s1 else Some s1)"

declare drop_until_failure.simps [code]

text \<open>Lines 255 to 263: the body of the pause branch.\<close>

definition toggle_pause :: "collaborators \<Rightarrow> game_state \<Rightarrow> game_state" where
  "toggle_pause env s =
     (if \<not> paused s then
        (let s1 = s\<lparr>paused := True\<rparr>; (now, s2) = get_clock_ticks env s1
         in s2\<lparr>paused_time := now\<rparr>)
      else
        (let s1 = s\<lparr>paused := False\<rparr>; (now, s2) = get_clock_ticks env s1
         in s2\<lparr>last_drop_time := last_drop_time s2 + (now - paused_time s2)\<rparr>))"

text \<open>
  Lines 224 to 264: the chain of \<^verbatim>\<open>if\<close>/\<^verbatim>\<open>else if\<close>. First its four conditions
  on a direction, without their \<^verbatim>\<open>&& !paused\<close>. In
  \<^verbatim>\<open>button==3 || escape_sequence_char=='D' || is_left()\<close> the call of \<^verbatim>\<open>is_left()\<close>
  is made only when the two tests before it fail.
\<close>

definition left_condition ::
    "collaborators \<Rightarrow> 8 word \<Rightarrow> 8 word \<Rightarrow> game_state \<Rightarrow> bool \<times> game_state" where
  "left_condition env button escape_sequence_char s =
     (if button = 3 \<or> escape_sequence_char = char_D then (True, s) else is_left env s)"

definition right_condition ::
    "collaborators \<Rightarrow> 8 word \<Rightarrow> 8 word \<Rightarrow> game_state \<Rightarrow> bool \<times> game_state" where
  "right_condition env button escape_sequence_char s =
     (if button = 0 \<or> escape_sequence_char = char_C then (True, s) else is_right env s)"

definition up_condition ::
    "collaborators \<Rightarrow> 8 word \<Rightarrow> 8 word \<Rightarrow> game_state \<Rightarrow> bool \<times> game_state" where
  "up_condition env button escape_sequence_char s =
     (if button = 2 \<or> escape_sequence_char = char_A then (True, s) else is_up_stick env s)"

definition down_condition ::
    "collaborators \<Rightarrow> 8 word \<Rightarrow> game_state \<Rightarrow> bool \<times> game_state" where
  "down_condition env escape_sequence_char s =
     (if escape_sequence_char = char_B then (True, s) else is_down_stick env s)"

text \<open>
  The chain itself. \<^verbatim>\<open>paused\<close> is looked at after the condition on the direction,
  and when the whole condition fails the next \<^verbatim>\<open>else if\<close> is evaluated in the state
  the direction check left behind.
\<close>

definition process_input ::
    "collaborators \<Rightarrow> 8 word \<Rightarrow> 8 word \<Rightarrow> 8 word \<Rightarrow> game_state \<Rightarrow> outcome option" where
  "process_input env button serial_input escape_sequence_char s =
     (let (left, s1) = left_condition env button escape_sequence_char s in
      if left \<and> \<not> paused s1 then Some (Continue (attempt_move MOVE_LEFT s1)) else
      let (right, s2) = right_condition env button escape_sequence_char s1 in
      if right \<and> \<not> paused s2 then Some (Continue (attempt_move MOVE_RIGHT s2)) else
      let (up, s3) = up_condition env button escape_sequence_char s2 in
      if up \<and> \<not> paused s3 then Some (Continue (attempt_rotation s3)) else
      let (down, s4) = down_condition env escape_sequence_char s3 in
      if down \<and> \<not> paused s4 then
        (case drop_or_fix env s4 of
           GameOver g \<Rightarrow> Some (GameOver g)
         | Continue c \<Rightarrow> Some (Continue (record_drop_time env c)))
      else if (button = 1 \<or> serial_input = char_space) \<and> \<not> paused s4 then
        (case drop_until_failure env s4 of
           None \<Rightarrow> None
         | Some s5 \<Rightarrow>
             (let (room, s6) = fix_block_to_board_and_add_new_block env s5 in
              if \<not> room then Some (GameOver s6) else Some (Continue s6)))
      else if serial_input = char_p \<or> serial_input = char_P then
        Some (Continue (toggle_pause env s4))
      else Some (Continue s4))"

text \<open>
  Line 269: \<^verbatim>\<open>600 - (get_cleared_rows() * 30)\<close> is computed in \<^verbatim>\<open>int\<close> (the
  \<^verbatim>\<open>uint8_t\<close> is promoted), and the \<^verbatim>\<open>int\<close> is converted to \<^verbatim>\<open>uint32_t\<close> for the
  addition to \<^verbatim>\<open>last_drop_time\<close>, which wraps around; \<^verbatim>\<open>>=\<close> compares unsigned
  32-bit values.
\<close>

definition drop_interval :: "8 word \<Rightarrow> int" where
  "drop_interval rows = 600 - int (unat rows) * 30"

definition drop_due :: "32 word \<Rightarrow> 32 word \<Rightarrow> 8 word \<Rightarrow> bool" where
  "drop_due now last_drop rows = (now \<ge> last_drop + word_of_int (drop_interval rows))"

text \<open>Lines 268 to 279: the timer.\<close>

definition timer_events :: "collaborators \<Rightarrow> game_state \<Rightarrow> outcome" where
  "timer_events env s =
     (let (now, s1) = get_clock_ticks env s in
      if drop_due now (last_drop_time s1) (get_cleared_rows (tracker s1)) \<and> \<not> paused s1 then
        (case drop_or_fix env s1 of
           GameOver g \<Rightarrow> GameOver g
         | Continue c \<Rightarrow> Continue (record_drop_time env c))
      else Continue s1)"

text \<open>
  Lines 190 to 264, the input half of a pass, and the whole pass. \<open>None\<close> is a pass
  that never ends. \<^verbatim>\<open>update_seven_segment()\<close> only writes the display port and is
  left out.
\<close>

definition input_step :: "collaborators \<Rightarrow> game_state \<Rightarrow> outcome option" where
  "input_step env s =
     (let (button, serial_input, escape_sequence_char, s1) = poll_input s
      in process_input env button serial_input escape_sequence_char s1)"

definition iteration :: "collaborators \<Rightarrow> 16 word \<Rightarrow> game_state \<Rightarrow> outcome option" where
  "iteration env adc s =
     (case input_step env (convert_joystick adc s) of
        None \<Rightarrow> None
      | Some (GameOver g) \<Rightarrow> Some (GameOver g)
      | Some (Continue c) \<Rightarrow> Some (timer_events env c))"

text \<open>
  What the interrupt handlers bring between two passes: the converter's next reading, the
  buttons pushed and the bytes received.
\<close>

record arrival =
  adc_reading :: "16 word"
  buttons_pushed :: "8 word list"
  bytes_received :: "8 word list"

definition arrive :: "arrival \<Rightarrow> game_state \<Rightarrow> game_state" where
  "arrive a s =
     s\<lparr>button_queue := button_queue s @ buttons_pushed a,
       serial_queue := serial_queue s @ bytes_received a\<rparr>"

fun play_iterations :: "collaborators \<Rightarrow> arrival list \<Rightarrow> game_state \<Rightarrow> outcome option" where
  "play_iterations env [] s = Some (Continue s)"
| "play_iterations env (a # as) s =
     (case iteration env (adc_reading a) (arrive a s) of
        None \<Rightarrow> None
      | Some (GameOver g) \<Rightarrow> Some (GameOver g)
      | Some (Continue c) \<Rightarrow> play_iterations env as c)"

section \<open>Observing a pass\<close>

text \<open>The state a pass ends in, and the board calls a step started in \<open>s\<close> has made.\<close>

fun state_of :: "outcome \<Rightarrow> game_state" where
  "state_of (Continue s) = s"
| "state_of (GameOver s) = s"

definition dispatched :: "game_state \<Rightarrow> outcome option \<Rightarrow> board_call list option" where
  "dispatched s r = map_option (\<lambda>out. drop (length (calls s)) (calls (state_of out))) r"

text \<open>
  Passes during which the game stays paused: \<open>paused_passes env as s\<close> is the state after
  the passes \<open>as\<close> when each of them ends with \<^verbatim>\<open>paused\<close> set, and \<open>None\<close> otherwise.
\<close>

fun paused_passes :: "collaborators \<Rightarrow> arrival list \<Rightarrow> game_state \<Rightarrow> game_state option" where
  "paused_passes env [] s = Some s"
| "paused_passes env (a # as) s =
     (case iteration env (adc_reading a) (arrive a s) of
        Some (Continue c) \<Rightarrow> if paused c then paused_passes env as c else None
      | _ \<Rightarrow> None)"

text \<open>
  What the direction checks can do to a state: read the clock and nothing else
  (\<open>untouched\<close>), or also set \<^verbatim>\<open>joystick_time\<close> to one of the readings taken
  (\<open>stamped\<close>).
\<close>

definition untouched :: "game_state \<Rightarrow> game_state \<Rightarrow> bool" where
  "untouched s s' =
     (s' = s\<lparr>clock_reads := clock_reads s'\<rparr> \<and> clock_reads s \<le> clock_reads s')"

definition stamped :: "collaborators \<Rightarrow> game_state \<Rightarrow> game_state \<Rightarrow> bool" where
  "stamped env s s' =
     (\<exists>k. clock_reads s \<le> k \<and> k < clock_reads s'
        \<and> s' = s\<lparr>joystick_time := clock_value env k, clock_reads := clock_reads s'\<rparr>)"

definition checked :: "collaborators \<Rightarrow> game_state \<Rightarrow> game_state \<Rightarrow> bool" where
  "checked env s s' = (untouched s s' \<or> stamped env s s')"

text \<open>The state the four conditions of the chain leave behind when none of them is taken.\<close>

definition after_conditions ::
    "collaborators \<Rightarrow> 8 word \<Rightarrow> 8 word \<Rightarrow> game_state \<Rightarrow> game_state" where
  "after_conditions env button escape_sequence_char s =
     snd (down_condition env escape_sequence_char
       (snd (up_condition env button escape_sequence_char
         (snd (right_condition env button escape_sequence_char
           (snd (left_condition env button escape_sequence_char s)))))))"

text \<open>The joystick at rest: neither axis is beyond a threshold.\<close>

definition joystick_centred :: "game_state \<Rightarrow> bool" where
  "joystick_centred s =
     (150 \<le> stick_x s \<and> stick_x s \<le> 850 \<and> 150 \<le> stick_y s \<and> stick_y s \<le> 850)"

text \<open>
  Concrete collaborators and a concrete state to run the loop on: a clock whose reads
  return the ticks of a list, one after the other, and the last of them from then on; a
  board on which the falling block already rests on
  something (no drop succeeds) and every new block has room; and the state at the start
  of a game, with the joystick centred and nothing queued, or with the joystick at given
  readings.
\<close>

definition ticks_of :: "32 word list \<Rightarrow> nat \<Rightarrow> 32 word" where
  "ticks_of ts k = (if k < length ts then ts ! k else last (0 # ts))"

definition resting_board :: "(nat \<Rightarrow> 32 word) \<Rightarrow> collaborators" where
  "resting_board ticks =
     \<lparr>clock_value = ticks, drop_succeeds = (\<lambda>_. False), fix_succeeds = (\<lambda>_. True),
      fix_clears = (\<lambda>_. 0)\<rparr>"

definition game_start :: game_state where
  "game_start =
     \<lparr>last_drop_time = 0, characters_into_escape_sequence = 0, paused = False,
      paused_time = 0, joystick_time = 0, target_pin = 0, stick_x = 500, stick_y = 500,
      tracker = \<lparr>score = 0, cleared_rows = 0\<rparr>, button_queue = [], serial_queue = [],
      clock_reads = 0, calls = []\<rparr>"

text \<open>Between two passes: nothing arrives, or one byte arrives on the serial line.\<close>

definition quiet :: arrival where
  "quiet = \<lparr>adc_reading = 500, buttons_pushed = [], bytes_received = []\<rparr>"

definition key_press :: "8 word \<Rightarrow> arrival" where
  "key_press c = \<lparr>adc_reading = 500, buttons_pushed = [], bytes_received = [c]\<rparr>"

definition tilted :: "16 word \<Rightarrow> 16 word \<Rightarrow> game_state" where
  "tilted x y = game_start\<lparr>stick_x := x, stick_y := y\<rparr>"

section \<open>Helper facts\<close>

subsection \<open>The row counter\<close>

lemma increment_below_cap:
  "unat (cleared_rows t) < 99 \<Longrightarrow>
   unat (cleared_rows (increment_cleared_rows t)) = Suc (unat (cleared_rows t))"
  by (simp add: increment_cleared_rows_def word_less_nat_alt unat_word_ariths)

lemma increment_at_cap:
  "\<not> unat (cleared_rows t) < 99 \<Longrightarrow> increment_cleared_rows t = t"
  by (simp add: increment_cleared_rows_def word_less_nat_alt)

lemma increment_calls_closed_form:
  "unat (cleared_rows ((increment_cleared_rows ^^ n) (init_cleared_rows t))) = min n 99"
proof (induction n)
  case 0
  show ?case by (simp add: init_cleared_rows_def)
next
  case (Suc n)
  show ?case
  proof (cases "n < 99")
    case True
    with Suc show ?thesis by (simp add: increment_below_cap)
  next
    case False
    with Suc show ?thesis by (simp add: increment_at_cap)
  qed
qed

lemma increment_never_decreases:
  "cleared_rows t \<le> cleared_rows (increment_cleared_rows t)"
proof (cases "unat (cleared_rows t) < 99")
  case True
  then show ?thesis
    by (simp add: word_le_nat_alt increment_below_cap)
next
  case False
  then show ?thesis by (simp add: increment_at_cap)
qed

subsection \<open>Names for the definitions to unfold\<close>

lemmas joystick_defs =
  is_left_def is_right_def is_up_stick_def is_down_stick_def get_clock_ticks_def

lemmas condition_defs =
  left_condition_def right_condition_def up_condition_def down_condition_def

lemmas poll_defs =
  poll_input_def button_pushed_def serial_input_available_def fgetc_stdin_def

lemmas board_defs =
  attempt_move_def attempt_rotation_def attempt_drop_block_one_row_def
  fix_block_to_board_and_add_new_block_def drop_or_fix_def record_drop_time_def

lemmas fixture_defs =
  resting_board_def game_start_def ticks_of_def tilted_def quiet_def key_press_def

subsection \<open>The interval, and the timer test in natural numbers\<close>

text \<open>
  The \<^verbatim>\<open>int\<close> of the target is 16 bits wide; the interval never leaves its range, so
  computing it in unbounded integers is computing it as the code does.
\<close>

lemma drop_interval_fits_int16:
  "- 32768 \<le> drop_interval rows \<and> drop_interval rows \<le> 32767"
proof -
  have "unat rows < 256" using unsigned_less [of rows, where ?'a = nat] by simp
  then have "int (unat rows) < 256" by linarith
  then show ?thesis unfolding drop_interval_def by linarith
qed

lemma word_less_plus_nat:
  fixes now t :: "32 word"
  assumes "unat t + w < 2 ^ 32"
  shows "(t + of_nat w < now) = (unat t + w < unat now)"
proof -
  have "unat (t + of_nat w) = unat t + w"
    using assms by (simp add: unat_word_ariths unat_of_nat take_bit_nat_eq_self)
  then show ?thesis by (simp add: word_less_nat_alt)
qed

lemma drop_due_up_to_20_rows:
  assumes "unat rows \<le> 20" and "unat last_drop + (600 - 30 * unat rows) < 2 ^ 32"
  shows "drop_due now last_drop rows \<longleftrightarrow> unat last_drop + (600 - 30 * unat rows) \<le> unat now"
proof -
  have i: "drop_interval rows = int (600 - 30 * unat rows)"
    using assms(1) by (simp add: drop_interval_def)
  have "unat (last_drop + word_of_int (drop_interval rows))
          = unat last_drop + (600 - 30 * unat rows)"
    unfolding i using assms(2)
    by (simp add: unat_word_ariths unat_of_nat take_bit_nat_eq_self)
  then show ?thesis
    by (simp add: drop_due_def word_le_nat_alt)
qed

subsection \<open>What the input poll returns\<close>

lemma poll_input_nothing:
  "button_queue s = [] \<Longrightarrow> serial_queue s = [] \<Longrightarrow>
   poll_input s = (no_input, no_input, no_input, s)"
  by (simp add: poll_defs)

lemma poll_input_button:
  "button_queue s = b # bs \<Longrightarrow> b \<noteq> no_input \<Longrightarrow>
   poll_input s = (b, no_input, no_input, s\<lparr>button_queue := bs\<rparr>)"
  by (simp add: poll_defs)

lemma poll_input_serial:
  "button_queue s = [] \<Longrightarrow> serial_queue s = c # cs \<Longrightarrow>
   poll_input s =
     (no_input,
      (if characters_into_escape_sequence s = 0 \<and> c = ESCAPE_CHAR then no_input
       else if characters_into_escape_sequence s = 1 \<and> c = char_lbracket then no_input
       else if characters_into_escape_sequence s = 2 then no_input else c),
      (if characters_into_escape_sequence s = 2 then c else no_input),
      s\<lparr>characters_into_escape_sequence :=
          (if characters_into_escape_sequence s = 0 \<and> c = ESCAPE_CHAR then 1
           else if characters_into_escape_sequence s = 1 \<and> c = char_lbracket then 2
           else 0),
        serial_queue := cs\<rparr>)"
  by (simp add: poll_defs)

text \<open>
  A byte reaches \<^verbatim>\<open>serial_input\<close> only when no button was waiting and the decoder is
  not at the last byte of a sequence; it is the head of the serial queue, and the decoder
  is back in state 0.
\<close>

lemma poll_input_ordinary:
  assumes "fst (snd (poll_input s)) \<noteq> no_input"
  shows "fst (poll_input s) = no_input \<and> characters_into_escape_sequence s \<noteq> 2
     \<and> characters_into_escape_sequence (snd (snd (snd (poll_input s)))) = 0
     \<and> serial_queue s
         = fst (snd (poll_input s)) # serial_queue (snd (snd (snd (poll_input s))))"
  using assms
  by (auto simp: poll_defs Let_def split: list.splits if_splits)

lemma poll_only_serial:
  assumes "button_queue s = []" "characters_into_escape_sequence s \<noteq> 2"
  shows "\<exists>serial_input n q. poll_input s = (no_input, serial_input, no_input,
            s\<lparr>characters_into_escape_sequence := n, serial_queue := q\<rparr>)"
proof (cases "serial_queue s")
  case Nil
  have "s = s\<lparr>characters_into_escape_sequence := characters_into_escape_sequence s,
            serial_queue := serial_queue s\<rparr>" by simp
  then show ?thesis using poll_input_nothing [OF assms(1) Nil] by metis
next
  case (Cons c cs)
  show ?thesis using poll_input_serial [OF assms(1) Cons] assms(2) by auto
qed

subsection \<open>A tilt in a running game\<close>

lemma tilt_dispatch:
  assumes run: "\<not> paused s"
    and none: "button = no_input" "escape_sequence_char = no_input"
  shows "(850 < stick_x s \<and> joystick_time s + 150 < clock_value env (clock_reads s) \<longrightarrow>
            dispatched s (process_input env button serial_input escape_sequence_char s)
              = Some [AttemptMove MOVE_LEFT])
       \<and> (stick_x s < 150 \<and> joystick_time s + 150 < clock_value env (clock_reads s) \<longrightarrow>
            dispatched s (process_input env button serial_input escape_sequence_char s)
              = Some [AttemptMove MOVE_RIGHT])
       \<and> (150 \<le> stick_x s \<and> stick_x s \<le> 850 \<and> 850 < stick_y s
            \<and> joystick_time s + 300 < clock_value env (clock_reads s) \<longrightarrow>
            dispatched s (process_input env button serial_input escape_sequence_char s)
              = Some [AttemptRotation])
       \<and> (150 \<le> stick_x s \<and> stick_x s \<le> 850 \<and> stick_y s < 150
            \<and> joystick_time s + 150 < clock_value env (clock_reads s) \<longrightarrow>
            dispatched s (process_input env button serial_input escape_sequence_char s)
              = Some (AttemptDropOneRow #
                  (if drop_succeeds env (calls s) then [] else [FixBlockAndAddNew])))"
  using assms
  apply (intro conjI impI)
     apply (simp_all add: process_input_def condition_defs joystick_defs dispatched_def board_defs
      split: prod.splits)
    apply (simp_all add: word_less_nat_alt word_le_nat_alt)
  done

subsection \<open>The direction checks change the timestamp and the read count only\<close>

lemma untouched_refl: "untouched s s"
  by (simp add: untouched_def)

lemma untouchedI: "s' = s\<lparr>clock_reads := n\<rparr> \<Longrightarrow> clock_reads s \<le> n \<Longrightarrow> untouched s s'"
  by (simp add: untouched_def)

lemma untouchedE:
  assumes "untouched s s'"
  obtains n where "s' = s\<lparr>clock_reads := n\<rparr>" "clock_reads s \<le> n"
  using assms unfolding untouched_def by blast

lemma stampedI:
  "s' = s\<lparr>joystick_time := clock_value env k, clock_reads := n\<rparr> \<Longrightarrow> clock_reads s \<le> k \<Longrightarrow> k < n
   \<Longrightarrow> stamped env s s'"
  unfolding stamped_def by auto

lemma stampedE:
  assumes "stamped env s s'"
  obtains k n where "s' = s\<lparr>joystick_time := clock_value env k, clock_reads := n\<rparr>"
    "clock_reads s \<le> k" "k < n"
  using assms unfolding stamped_def by blast

lemma untouched_trans:
  assumes "untouched a b" "untouched b c"
  shows "untouched a c"
proof -
  obtain n where b: "b = a\<lparr>clock_reads := n\<rparr>" "clock_reads a \<le> n"
    using assms(1) by (rule untouchedE)
  obtain m where c: "c = b\<lparr>clock_reads := m\<rparr>" "clock_reads b \<le> m"
    using assms(2) by (rule untouchedE)
  show ?thesis
    by (rule untouchedI [where n = m]) (use b c in auto)
qed

lemma untouched_stamped:
  assumes "untouched a b" "stamped env b c"
  shows "stamped env a c"
proof -
  obtain n where b: "b = a\<lparr>clock_reads := n\<rparr>" "clock_reads a \<le> n"
    using assms(1) by (rule untouchedE)
  obtain k m where c: "c = b\<lparr>joystick_time := clock_value env k, clock_reads := m\<rparr>"
      "clock_reads b \<le> k" "k < m"
    using assms(2) by (rule stampedE)
  show ?thesis
    by (rule stampedI [where k = k and n = m]) (use b c in auto)
qed

lemma stamped_untouched:
  assumes "stamped env a b" "untouched b c"
  shows "stamped env a c"
proof -
  obtain k n where b: "b = a\<lparr>joystick_time := clock_value env k, clock_reads := n\<rparr>"
      "clock_reads a \<le> k" "k < n"
    using assms(1) by (rule stampedE)
  obtain m where c: "c = b\<lparr>clock_reads := m\<rparr>" "clock_reads b \<le> m"
    using assms(2) by (rule untouchedE)
  show ?thesis
    by (rule stampedI [where k = k and n = m]) (use b c in auto)
qed

lemma stamped_stamped:
  assumes "stamped env a b" "stamped env b c"
  shows "stamped env a c"
proof -
  obtain k n where b: "b = a\<lparr>joystick_time := clock_value env k, clock_reads := n\<rparr>"
      "clock_reads a \<le> k" "k < n"
    using assms(1) by (rule stampedE)
  obtain j m where c: "c = b\<lparr>joystick_time := clock_value env j, clock_reads := m\<rparr>"
      "clock_reads b \<le> j" "j < m"
    using assms(2) by (rule stampedE)
  show ?thesis
    by (rule stampedI [where k = j and n = m]) (use b c in auto)
qed

lemma is_left_effect:
  "(fst (is_left env s) \<and> stamped env s (snd (is_left env s)))
   \<or> (\<not> fst (is_left env s) \<and> untouched s (snd (is_left env s)))"
  by (auto simp: joystick_defs intro!: stampedI [where k = "Suc (clock_reads s)"] untouchedI)

lemma is_right_effect:
  "(fst (is_right env s) \<and> stamped env s (snd (is_right env s)))
   \<or> (\<not> fst (is_right env s) \<and> untouched s (snd (is_right env s)))"
  by (auto simp: joystick_defs intro!: stampedI [where k = "Suc (clock_reads s)"] untouchedI)

lemma is_up_effect:
  "(fst (is_up_stick env s) \<and> stamped env s (snd (is_up_stick env s)))
   \<or> (\<not> fst (is_up_stick env s) \<and> untouched s (snd (is_up_stick env s)))"
  by (auto simp: joystick_defs intro!: stampedI [where k = "Suc (clock_reads s)"] untouchedI)

lemma is_down_effect:
  "(fst (is_down_stick env s) \<and> stamped env s (snd (is_down_stick env s)))
   \<or> (\<not> fst (is_down_stick env s) \<and> untouched s (snd (is_down_stick env s)))"
  by (auto simp: joystick_defs intro!: stampedI [where k = "Suc (clock_reads s)"] untouchedI)


lemma checked_refl: "checked env s s"
  by (simp add: checked_def untouched_refl)

lemma checked_trans: "checked env a b \<Longrightarrow> checked env b c \<Longrightarrow> checked env a c"
  unfolding checked_def
  using untouched_trans untouched_stamped stamped_untouched stamped_stamped by blast


lemma checked_shape:
  assumes "checked env s s'"
  shows "\<exists>j n. s' = s\<lparr>joystick_time := j, clock_reads := n\<rparr> \<and> clock_reads s \<le> n"
proof (cases "untouched s s'")
  case True
  then obtain n where "s' = s\<lparr>clock_reads := n\<rparr>" "clock_reads s \<le> n"
    by (rule untouchedE)
  then have "s' = s\<lparr>joystick_time := joystick_time s, clock_reads := n\<rparr> \<and> clock_reads s \<le> n"
    by simp
  then show ?thesis by blast
next
  case False
  with assms have "stamped env s s'" by (simp add: checked_def)
  then obtain k n where "s' = s\<lparr>joystick_time := clock_value env k, clock_reads := n\<rparr>"
      "clock_reads s \<le> k" "k < n"
    by (rule stampedE)
  then have "s' = s\<lparr>joystick_time := clock_value env k, clock_reads := n\<rparr> \<and> clock_reads s \<le> n"
    by simp
  then show ?thesis by blast
qed

lemma checked_fields:
  assumes "checked env s s'"
  shows "paused s' = paused s" "calls s' = calls s" "tracker s' = tracker s"
    "last_drop_time s' = last_drop_time s" "paused_time s' = paused_time s"
    "characters_into_escape_sequence s' = characters_into_escape_sequence s"
    "button_queue s' = button_queue s" "serial_queue s' = serial_queue s"
    "stick_x s' = stick_x s" "stick_y s' = stick_y s" "target_pin s' = target_pin s"
    "clock_reads s \<le> clock_reads s'"
proof -
  obtain j n where e: "s' = s\<lparr>joystick_time := j, clock_reads := n\<rparr>" "clock_reads s \<le> n"
    using checked_shape [OF assms] by blast
  show "paused s' = paused s" "calls s' = calls s" "tracker s' = tracker s"
    "last_drop_time s' = last_drop_time s" "paused_time s' = paused_time s"
    "characters_into_escape_sequence s' = characters_into_escape_sequence s"
    "button_queue s' = button_queue s" "serial_queue s' = serial_queue s"
    "stick_x s' = stick_x s" "stick_y s' = stick_y s" "target_pin s' = target_pin s"
    "clock_reads s \<le> clock_reads s'"
    using e by simp_all
qed

lemma left_condition_checked: "checked env s (snd (left_condition env b e s))"
  using is_left_effect [of env s]
  by (auto simp: left_condition_def checked_def untouched_refl)

lemma right_condition_checked: "checked env s (snd (right_condition env b e s))"
  using is_right_effect [of env s]
  by (auto simp: right_condition_def checked_def untouched_refl)

lemma up_condition_checked: "checked env s (snd (up_condition env b e s))"
  using is_up_effect [of env s]
  by (auto simp: up_condition_def checked_def untouched_refl)

lemma down_condition_checked: "checked env s (snd (down_condition env e s))"
  using is_down_effect [of env s]
  by (auto simp: down_condition_def checked_def untouched_refl)

lemma after_conditions_checked: "checked env s (after_conditions env b e s)"
  unfolding after_conditions_def
  by (rule checked_trans [OF left_condition_checked
        checked_trans [OF right_condition_checked
          checked_trans [OF up_condition_checked down_condition_checked]]])




subsection \<open>The chain in a paused game\<close>

lemma process_input_paused:
  assumes "paused s"
  shows "process_input env button serial_input escape_sequence_char s =
     Some (Continue
       (if serial_input = char_p \<or> serial_input = char_P
        then toggle_pause env (after_conditions env button escape_sequence_char s)
        else after_conditions env button escape_sequence_char s))"
proof -
  let ?L = "left_condition env button escape_sequence_char s"
  let ?R = "right_condition env button escape_sequence_char (snd ?L)"
  let ?U = "up_condition env button escape_sequence_char (snd ?R)"
  let ?D = "down_condition env escape_sequence_char (snd ?U)"
  have c1: "checked env s (snd ?L)" by (rule left_condition_checked)
  have c2: "checked env (snd ?L) (snd ?R)" by (rule right_condition_checked)
  have c3: "checked env (snd ?R) (snd ?U)" by (rule up_condition_checked)
  have c4: "checked env (snd ?U) (snd ?D)" by (rule down_condition_checked)
  have p1: "paused (snd ?L)" using checked_fields(1) [OF c1] assms by simp
  have p2: "paused (snd ?R)" using checked_fields(1) [OF c2] p1 by simp
  have p3: "paused (snd ?U)" using checked_fields(1) [OF c3] p2 by simp
  have p4: "paused (snd ?D)" using checked_fields(1) [OF c4] p3 by simp
  show ?thesis
    unfolding process_input_def after_conditions_def
    using p1 p2 p3 p4 by (simp add: split_def)
qed

lemma poll_input_fields:
  "paused (snd (snd (snd (poll_input s)))) = paused s"
  "calls (snd (snd (snd (poll_input s)))) = calls s"
  "tracker (snd (snd (snd (poll_input s)))) = tracker s"
  "last_drop_time (snd (snd (snd (poll_input s)))) = last_drop_time s"
  "paused_time (snd (snd (snd (poll_input s)))) = paused_time s"
  "joystick_time (snd (snd (snd (poll_input s)))) = joystick_time s"
  "stick_x (snd (snd (snd (poll_input s)))) = stick_x s"
  "stick_y (snd (snd (snd (poll_input s)))) = stick_y s"
  "clock_reads (snd (snd (snd (poll_input s)))) = clock_reads s"
  by (simp_all add: poll_defs split: list.splits)

lemma convert_joystick_fields:
  "paused (convert_joystick adc s) = paused s"
  "calls (convert_joystick adc s) = calls s"
  "tracker (convert_joystick adc s) = tracker s"
  "last_drop_time (convert_joystick adc s) = last_drop_time s"
  "paused_time (convert_joystick adc s) = paused_time s"
  "joystick_time (convert_joystick adc s) = joystick_time s"
  "characters_into_escape_sequence (convert_joystick adc s) = characters_into_escape_sequence s"
  "button_queue (convert_joystick adc s) = button_queue s"
  "serial_queue (convert_joystick adc s) = serial_queue s"
  "clock_reads (convert_joystick adc s) = clock_reads s"
  by (simp_all add: convert_joystick_def Let_def)

lemma toggle_pause_resumes:
  assumes "paused s"
  shows "toggle_pause env s =
     s\<lparr>paused := False, clock_reads := Suc (clock_reads s),
       last_drop_time := last_drop_time s + (clock_value env (clock_reads s) - paused_time s)\<rparr>"
  using assms by (simp add: toggle_pause_def get_clock_ticks_def)

lemma toggle_pause_pauses:
  assumes "\<not> paused s"
  shows "toggle_pause env s =
     s\<lparr>paused := True, clock_reads := Suc (clock_reads s),
       paused_time := clock_value env (clock_reads s)\<rparr>"
  using assms by (simp add: toggle_pause_def get_clock_ticks_def)

lemma timer_events_paused:
  "paused s \<Longrightarrow> timer_events env s = Continue (s\<lparr>clock_reads := Suc (clock_reads s)\<rparr>)"
  by (simp add: timer_events_def get_clock_ticks_def)

lemma input_step_paused:
  assumes "paused s"
  shows "input_step env s =
     Some (Continue
       (if fst (snd (poll_input s)) = char_p \<or> fst (snd (poll_input s)) = char_P
        then toggle_pause env
          (after_conditions env (fst (poll_input s)) (fst (snd (snd (poll_input s))))
             (snd (snd (snd (poll_input s)))))
        else after_conditions env (fst (poll_input s)) (fst (snd (snd (poll_input s))))
             (snd (snd (snd (poll_input s))))))"
  using process_input_paused [of "snd (snd (snd (poll_input s)))" env "fst (poll_input s)"
      "fst (snd (poll_input s))" "fst (snd (snd (poll_input s)))"] assms
  by (simp add: input_step_def split_def Let_def poll_input_fields)

subsection \<open>A tilt whose check is reached with its window over stamps the timestamp\<close>

lemma is_left_fires:
  assumes "850 < stick_x s" "joystick_time s + 150 < clock_value env (clock_reads s)"
  shows "stamped env s (snd (is_left env s))"
  using assms
  by (auto simp: joystick_defs intro!: stampedI [where k = "Suc (clock_reads s)"])

lemma is_right_fires:
  assumes "stick_x s < 150" "joystick_time s + 150 < clock_value env (clock_reads s)"
  shows "stamped env s (snd (is_right env s))"
  using assms
  by (auto simp: joystick_defs intro!: stampedI [where k = "Suc (clock_reads s)"])

lemma is_up_stick_fires:
  assumes "850 < stick_y s" "joystick_time s + 300 < clock_value env (clock_reads s)"
  shows "stamped env s (snd (is_up_stick env s))"
  using assms
  by (auto simp: joystick_defs intro!: stampedI [where k = "Suc (clock_reads s)"])

lemma is_down_stick_fires:
  assumes "stick_y s < 150" "joystick_time s + 150 < clock_value env (clock_reads s)"
  shows "stamped env s (snd (is_down_stick env s))"
  using assms
  by (auto simp: joystick_defs intro!: stampedI [where k = "Suc (clock_reads s)"])


lemma stamped_checked: "stamped env a b \<Longrightarrow> checked env b c \<Longrightarrow> stamped env a c"
  unfolding checked_def using stamped_untouched stamped_stamped by blast

lemma left_stage_fires:
  assumes "checked env s s1" "b \<noteq> 3" "e \<noteq> char_D" "850 < stick_x s"
    and "\<forall>k\<ge>clock_reads s. joystick_time s + 150 < clock_value env k"
  shows "stamped env s (snd (left_condition env b e s1))"
proof (cases "stamped env s s1")
  case True
  then show ?thesis by (rule stamped_checked) (rule left_condition_checked)
next
  case False
  with assms(1) have "untouched s s1" by (simp add: checked_def)
  then obtain n where n: "s1 = s\<lparr>clock_reads := n\<rparr>" "clock_reads s \<le> n"
    by (rule untouchedE)
  have "stamped env s1 (snd (is_left env s1))"
    by (rule is_left_fires) (use n assms in auto)
  then have "stamped env s1 (snd (left_condition env b e s1))"
    using assms(2,3) by (simp add: left_condition_def)
  with \<open>untouched s s1\<close> show ?thesis by (rule untouched_stamped)
qed

lemma right_stage_fires:
  assumes "checked env s s1" "b \<noteq> 0" "e \<noteq> char_C" "stick_x s < 150"
    and "\<forall>k\<ge>clock_reads s. joystick_time s + 150 < clock_value env k"
  shows "stamped env s (snd (right_condition env b e s1))"
proof (cases "stamped env s s1")
  case True
  then show ?thesis by (rule stamped_checked) (rule right_condition_checked)
next
  case False
  with assms(1) have "untouched s s1" by (simp add: checked_def)
  then obtain n where n: "s1 = s\<lparr>clock_reads := n\<rparr>" "clock_reads s \<le> n"
    by (rule untouchedE)
  have "stamped env s1 (snd (is_right env s1))"
    by (rule is_right_fires) (use n assms in auto)
  then have "stamped env s1 (snd (right_condition env b e s1))"
    using assms(2,3) by (simp add: right_condition_def)
  with \<open>untouched s s1\<close> show ?thesis by (rule untouched_stamped)
qed

lemma up_stage_fires:
  assumes "checked env s s1" "b \<noteq> 2" "e \<noteq> char_A" "850 < stick_y s"
    and "\<forall>k\<ge>clock_reads s. joystick_time s + 300 < clock_value env k"
  shows "stamped env s (snd (up_condition env b e s1))"
proof (cases "stamped env s s1")
  case True
  then show ?thesis by (rule stamped_checked) (rule up_condition_checked)
next
  case False
  with assms(1) have "untouched s s1" by (simp add: checked_def)
  then obtain n where n: "s1 = s\<lparr>clock_reads := n\<rparr>" "clock_reads s \<le> n"
    by (rule untouchedE)
  have "stamped env s1 (snd (is_up_stick env s1))"
    by (rule is_up_stick_fires) (use n assms in auto)
  then have "stamped env s1 (snd (up_condition env b e s1))"
    using assms(2,3) by (simp add: up_condition_def)
  with \<open>untouched s s1\<close> show ?thesis by (rule untouched_stamped)
qed

lemma down_stage_fires:
  assumes "checked env s s1" "e \<noteq> char_B" "stick_y s < 150"
    and "\<forall>k\<ge>clock_reads s. joystick_time s + 150 < clock_value env k"
  shows "stamped env s (snd (down_condition env e s1))"
proof (cases "stamped env s s1")
  case True
  then show ?thesis by (rule stamped_checked) (rule down_condition_checked)
next
  case False
  with assms(1) have "untouched s s1" by (simp add: checked_def)
  then obtain n where n: "s1 = s\<lparr>clock_reads := n\<rparr>" "clock_reads s \<le> n"
    by (rule untouchedE)
  have "stamped env s1 (snd (is_down_stick env s1))"
    by (rule is_down_stick_fires) (use n assms in auto)
  then have "stamped env s1 (snd (down_condition env e s1))"
    using assms(2) by (simp add: down_condition_def)
  with \<open>untouched s s1\<close> show ?thesis by (rule untouched_stamped)
qed

lemma after_conditions_stamped:
  assumes "(b \<noteq> 3 \<and> e \<noteq> char_D \<and> 850 < stick_x s
              \<and> (\<forall>k\<ge>clock_reads s. joystick_time s + 150 < clock_value env k))
         \<or> (b \<noteq> 0 \<and> e \<noteq> char_C \<and> stick_x s < 150
              \<and> (\<forall>k\<ge>clock_reads s. joystick_time s + 150 < clock_value env k))
         \<or> (b \<noteq> 2 \<and> e \<noteq> char_A \<and> 850 < stick_y s
              \<and> (\<forall>k\<ge>clock_reads s. joystick_time s + 300 < clock_value env k))
         \<or> (e \<noteq> char_B \<and> stick_y s < 150
              \<and> (\<forall>k\<ge>clock_reads s. joystick_time s + 150 < clock_value env k))"
  shows "stamped env s (after_conditions env b e s)"
proof -
  let ?s1 = "snd (left_condition env b e s)"
  let ?s2 = "snd (right_condition env b e ?s1)"
  let ?s3 = "snd (up_condition env b e ?s2)"
  let ?s4 = "snd (down_condition env e ?s3)"
  have c1: "checked env s ?s1" by (rule left_condition_checked)
  have c2: "checked env s ?s2" by (rule checked_trans [OF c1 right_condition_checked])
  have c3: "checked env s ?s3" by (rule checked_trans [OF c2 up_condition_checked])
  have r: "checked env ?s1 ?s4"
    by (rule checked_trans [OF right_condition_checked
          checked_trans [OF up_condition_checked down_condition_checked]])
  have u: "checked env ?s2 ?s4"
    by (rule checked_trans [OF up_condition_checked down_condition_checked])
  have d: "checked env ?s3 ?s4" by (rule down_condition_checked)
  from assms consider
      (left) "b \<noteq> 3" "e \<noteq> char_D" "850 < stick_x s"
        "\<forall>k\<ge>clock_reads s. joystick_time s + 150 < clock_value env k"
    | (right) "b \<noteq> 0" "e \<noteq> char_C" "stick_x s < 150"
        "\<forall>k\<ge>clock_reads s. joystick_time s + 150 < clock_value env k"
    | (up) "b \<noteq> 2" "e \<noteq> char_A" "850 < stick_y s"
        "\<forall>k\<ge>clock_reads s. joystick_time s + 300 < clock_value env k"
    | (down) "e \<noteq> char_B" "stick_y s < 150"
        "\<forall>k\<ge>clock_reads s. joystick_time s + 150 < clock_value env k"
    by blast
  then have "stamped env s ?s4"
  proof cases
    case left
    have "stamped env s ?s1" by (rule left_stage_fires [OF checked_refl left])
    then show ?thesis using r by (rule stamped_checked)
  next
    case right
    have "stamped env s ?s2" by (rule right_stage_fires [OF c1 right])
    then show ?thesis using u by (rule stamped_checked)
  next
    case up
    have "stamped env s ?s3" by (rule up_stage_fires [OF c2 up])
    then show ?thesis using d by (rule stamped_checked)
  next
    case down
    show ?thesis by (rule down_stage_fires [OF c3 down])
  qed
  then show ?thesis by (simp add: after_conditions_def)
qed

subsection \<open>Passes of a paused game\<close>

lemma arrive_fields:
  "paused (arrive a s) = paused s" "calls (arrive a s) = calls s"
  "tracker (arrive a s) = tracker s" "last_drop_time (arrive a s) = last_drop_time s"
  "paused_time (arrive a s) = paused_time s"
  by (simp_all add: arrive_def)

lemma paused_pass_frame:
  assumes "paused s"
  shows "\<exists>c. input_step env (convert_joystick adc s) = Some (Continue c)
     \<and> calls c = calls s \<and> tracker c = tracker s \<and> clock_reads s \<le> clock_reads c
     \<and> (\<not> paused c \<longleftrightarrow> fst (snd (poll_input (convert_joystick adc s))) \<in> {char_p, char_P})
     \<and> (paused c \<longrightarrow> last_drop_time c = last_drop_time s \<and> paused_time c = paused_time s
            \<and> iteration env adc s = Some (Continue (c\<lparr>clock_reads := Suc (clock_reads c)\<rparr>)))"
proof -
  let ?s = "convert_joystick adc s"
  let ?p = "poll_input ?s"
  let ?a = "after_conditions env (fst ?p) (fst (snd (snd ?p))) (snd (snd (snd ?p)))"
  have ps: "paused ?s" using assms by (simp add: convert_joystick_fields)
  have ch: "checked env (snd (snd (snd ?p))) ?a" by (rule after_conditions_checked)
  have pa: "paused ?a" "calls ?a = calls s" "tracker ?a = tracker s"
    "last_drop_time ?a = last_drop_time s" "paused_time ?a = paused_time s"
    "clock_reads s \<le> clock_reads ?a"
    using checked_fields [OF ch] assms
    by (simp_all add: poll_input_fields convert_joystick_fields)
  show ?thesis
  proof (cases "fst (snd ?p) = char_p \<or> fst (snd ?p) = char_P")
    case True
    then have "input_step env ?s = Some (Continue (toggle_pause env ?a))"
      using input_step_paused [OF ps, of env] by simp
    then show ?thesis
      using True pa by (simp add: toggle_pause_resumes)
  next
    case False
    then have i: "input_step env ?s = Some (Continue ?a)"
      using input_step_paused [OF ps, of env] by simp
    then show ?thesis
      using False pa by (simp add: iteration_def timer_events_paused)
  qed
qed

text \<open>Passes that stay paused are passes of the loop.\<close>

lemma paused_passes_play_iterations:
  "paused_passes env as s = Some s1 \<Longrightarrow> play_iterations env as s = Some (Continue s1)"
proof (induction as arbitrary: s)
  case Nil
  then show ?case by simp
next
  case (Cons a as)
  then show ?case
    by (auto split: option.splits outcome.splits if_splits)
qed

lemma paused_passes_frame:
  assumes "paused s" "paused_passes env as s = Some s1"
  shows "paused s1 \<and> last_drop_time s1 = last_drop_time s \<and> paused_time s1 = paused_time s
     \<and> tracker s1 = tracker s \<and> calls s1 = calls s \<and> clock_reads s \<le> clock_reads s1"
  using assms
proof (induction as arbitrary: s)
  case Nil
  then show ?case by simp
next
  case (Cons a as)
  let ?s = "arrive a s"
  have p: "paused ?s" using Cons.prems(1) by (simp add: arrive_fields)
  obtain c where c: "input_step env (convert_joystick (adc_reading a) ?s) = Some (Continue c)"
      "calls c = calls ?s" "tracker c = tracker ?s" "clock_reads ?s \<le> clock_reads c"
      "paused c \<longrightarrow> last_drop_time c = last_drop_time ?s \<and> paused_time c = paused_time ?s
            \<and> iteration env (adc_reading a) ?s
                = Some (Continue (c\<lparr>clock_reads := Suc (clock_reads c)\<rparr>))"
    using paused_pass_frame [OF p, of env "adc_reading a"] by blast
  show ?case
  proof (cases "paused c")
    case True
    let ?c = "c\<lparr>clock_reads := Suc (clock_reads c)\<rparr>"
    have it: "iteration env (adc_reading a) ?s = Some (Continue ?c)"
      using c(5) True by simp
    have pc: "paused ?c" using True by simp
    have rest: "paused_passes env as ?c = Some s1"
      using Cons.prems(2) it pc by simp
    have "paused s1 \<and> last_drop_time s1 = last_drop_time ?c \<and> paused_time s1 = paused_time ?c
       \<and> tracker s1 = tracker ?c \<and> calls s1 = calls ?c \<and> clock_reads ?c \<le> clock_reads s1"
      by (rule Cons.IH [OF pc rest])
    then show ?thesis
      using c True by (simp add: arrive_fields arrive_def)
  next
    case False
    have "iteration env (adc_reading a) ?s = Some (timer_events env c)"
      using c(1) by (simp add: iteration_def)
    moreover have "\<not> paused (state_of (timer_events env c))"
      using False
      by (auto simp: timer_events_def get_clock_ticks_def board_defs Let_def
          split: prod.splits outcome.splits if_splits)
    ultimately have "paused_passes env (a # as) s = None"
      by (cases "timer_events env c") auto
    then show ?thesis using Cons.prems(2) by simp
  qed
qed

subsection \<open>The hard-drop loop\<close>

text \<open>
  When the loop ends it has made some number \<open>n\<close> of successful drops and one that
  failed, and changed nothing but the log of board calls; and it does end when the board
  refuses a drop after \<open>n\<close> successful ones.
\<close>

lemma drop_until_failure_frame:
  assumes "drop_until_failure env s = Some s'"
  shows "\<exists>n. s' = s\<lparr>calls := calls s @ replicate (Suc n) AttemptDropOneRow\<rparr>
     \<and> (\<forall>i<n. drop_succeeds env (calls s @ replicate i AttemptDropOneRow))
     \<and> \<not> drop_succeeds env (calls s @ replicate n AttemptDropOneRow)"
proof -
  let ?P = "\<lambda>env s s'. \<exists>n. s' = s\<lparr>calls := calls s @ replicate (Suc n) AttemptDropOneRow\<rparr>
     \<and> (\<forall>i<n. drop_succeeds env (calls s @ replicate i AttemptDropOneRow))
     \<and> \<not> drop_succeeds env (calls s @ replicate n AttemptDropOneRow)"
  show ?thesis
  proof (rule drop_until_failure.raw_induct [where P = ?P, OF _ assms])
    fix loop :: "collaborators \<Rightarrow> game_state \<Rightarrow> game_state option"
      and env :: collaborators and s s' :: game_state
    assume IH: "\<And>e a y. loop e a = Some y \<Longrightarrow> ?P e a y"
    assume eq: "(case attempt_drop_block_one_row env s of
                   (dropped, s1) \<Rightarrow> if dropped then loop env s1 else Some s1) = Some s'"
    show "?P env s s'"
    proof (cases "drop_succeeds env (calls s)")
      case False
      then have "s' = s\<lparr>calls := calls s @ [AttemptDropOneRow]\<rparr>"
        using eq by (simp add: attempt_drop_block_one_row_def)
      then have "s' = s\<lparr>calls := calls s @ replicate (Suc 0) AttemptDropOneRow\<rparr>
          \<and> (\<forall>i<0. drop_succeeds env (calls s @ replicate i AttemptDropOneRow))
          \<and> \<not> drop_succeeds env (calls s @ replicate 0 AttemptDropOneRow)"
        using False by simp
      then show ?thesis by (rule exI)
    next
      case True
      let ?s1 = "s\<lparr>calls := calls s @ [AttemptDropOneRow]\<rparr>"
      have "loop env ?s1 = Some s'"
        using eq True by (simp add: attempt_drop_block_one_row_def)
      then obtain n where
        n: "s' = ?s1\<lparr>calls := calls ?s1 @ replicate (Suc n) AttemptDropOneRow\<rparr>"
          "\<forall>i<n. drop_succeeds env (calls ?s1 @ replicate i AttemptDropOneRow)"
          "\<not> drop_succeeds env (calls ?s1 @ replicate n AttemptDropOneRow)"
        using IH by blast
      have a: "calls ?s1 @ replicate i AttemptDropOneRow
          = calls s @ replicate (Suc i) AttemptDropOneRow" for i
        by simp
      have "\<forall>i<Suc n. drop_succeeds env (calls s @ replicate i AttemptDropOneRow)"
      proof (intro allI impI)
        fix i assume i: "i < Suc n"
        show "drop_succeeds env (calls s @ replicate i AttemptDropOneRow)"
        proof (cases i)
          case 0
          then show ?thesis using True by simp
        next
          case (Suc j)
          then have "j < n" using i by simp
          then show ?thesis using n(2) Suc a by metis
        qed
      qed
      moreover have "\<not> drop_succeeds env (calls s @ replicate (Suc n) AttemptDropOneRow)"
        using n(3) a by metis
      moreover have "s' = s\<lparr>calls := calls s @ replicate (Suc (Suc n)) AttemptDropOneRow\<rparr>"
        using n(1) by simp
      ultimately show ?thesis by blast
    qed
  qed
qed

lemma drop_until_failure_stops:
  assumes "\<forall>i<n. drop_succeeds env (calls s @ replicate i AttemptDropOneRow)"
    and "\<not> drop_succeeds env (calls s @ replicate n AttemptDropOneRow)"
  shows "drop_until_failure env s
     = Some (s\<lparr>calls := calls s @ replicate (Suc n) AttemptDropOneRow\<rparr>)"
  using assms
proof (induction n arbitrary: s)
  case 0
  then show ?case
    by (subst drop_until_failure.simps) (simp add: attempt_drop_block_one_row_def)
next
  case (Suc n)
  let ?s1 = "s\<lparr>calls := calls s @ [AttemptDropOneRow]\<rparr>"
  have t: "drop_succeeds env (calls s)" using Suc.prems(1) by force
  have a: "calls ?s1 @ replicate i AttemptDropOneRow
        = calls s @ replicate (Suc i) AttemptDropOneRow" for i
    by simp
  have "\<forall>i<n. drop_succeeds env (calls ?s1 @ replicate i AttemptDropOneRow)"
    using Suc.prems(1) a by (metis Suc_less_eq)
  moreover have "\<not> drop_succeeds env (calls ?s1 @ replicate n AttemptDropOneRow)"
    using Suc.prems(2) a by metis
  ultimately have "drop_until_failure env ?s1
      = Some (?s1\<lparr>calls := calls ?s1 @ replicate (Suc n) AttemptDropOneRow\<rparr>)"
    by (rule Suc.IH)
  then show ?case
    using t by (subst drop_until_failure.simps) (simp add: attempt_drop_block_one_row_def)
qed

lemma drop_or_fix_fields:
  "paused (state_of (drop_or_fix env s)) = paused s"
  "last_drop_time (state_of (drop_or_fix env s)) = last_drop_time s"
  "paused_time (state_of (drop_or_fix env s)) = paused_time s"
  "joystick_time (state_of (drop_or_fix env s)) = joystick_time s"
  "characters_into_escape_sequence (state_of (drop_or_fix env s)) = characters_into_escape_sequence s"
  "button_queue (state_of (drop_or_fix env s)) = button_queue s"
  "serial_queue (state_of (drop_or_fix env s)) = serial_queue s"
  "clock_reads (state_of (drop_or_fix env s)) = clock_reads s"
  "calls (state_of (drop_or_fix env s))
     = calls s @ AttemptDropOneRow # (if drop_succeeds env (calls s) then [] else [FixBlockAndAddNew])"
  by (simp_all add: board_defs)

lemma hard_drop_fields:
  assumes "drop_until_failure env s = Some s5"
  shows "paused (snd (fix_block_to_board_and_add_new_block env s5)) = paused s"
    "last_drop_time (snd (fix_block_to_board_and_add_new_block env s5)) = last_drop_time s"
    "button_queue (snd (fix_block_to_board_and_add_new_block env s5)) = button_queue s"
    "serial_queue (snd (fix_block_to_board_and_add_new_block env s5)) = serial_queue s"
    "characters_into_escape_sequence (snd (fix_block_to_board_and_add_new_block env s5))
       = characters_into_escape_sequence s"
    "clock_reads (snd (fix_block_to_board_and_add_new_block env s5)) = clock_reads s"
proof -
  obtain n where "s5 = s\<lparr>calls := calls s @ replicate (Suc n) AttemptDropOneRow\<rparr>"
    using drop_until_failure_frame [OF assms] by blast
  then show "paused (snd (fix_block_to_board_and_add_new_block env s5)) = paused s"
    "last_drop_time (snd (fix_block_to_board_and_add_new_block env s5)) = last_drop_time s"
    "button_queue (snd (fix_block_to_board_and_add_new_block env s5)) = button_queue s"
    "serial_queue (snd (fix_block_to_board_and_add_new_block env s5)) = serial_queue s"
    "characters_into_escape_sequence (snd (fix_block_to_board_and_add_new_block env s5))
       = characters_into_escape_sequence s"
    "clock_reads (snd (fix_block_to_board_and_add_new_block env s5)) = clock_reads s"
    by (simp_all add: fix_block_to_board_and_add_new_block_def)
qed

subsection \<open>The chain in a running game\<close>

text \<open>Only the pause branch of the chain can leave a running game paused.\<close>

lemma process_input_running:
  assumes run: "\<not> paused s"
    and out: "process_input env button serial_input escape_sequence_char s = Some out"
    and p: "paused (state_of out)"
  shows "out = Continue (toggle_pause env (after_conditions env button escape_sequence_char s))"
proof -
  let ?L = "left_condition env button escape_sequence_char s"
  let ?R = "right_condition env button escape_sequence_char (snd ?L)"
  let ?U = "up_condition env button escape_sequence_char (snd ?R)"
  let ?D = "down_condition env escape_sequence_char (snd ?U)"
  have c1: "checked env s (snd ?L)" by (rule left_condition_checked)
  have c2: "checked env (snd ?L) (snd ?R)" by (rule right_condition_checked)
  have c3: "checked env (snd ?R) (snd ?U)" by (rule up_condition_checked)
  have c4: "checked env (snd ?U) (snd ?D)" by (rule down_condition_checked)
  have p1: "\<not> paused (snd ?L)" using checked_fields(1) [OF c1] run by simp
  have p2: "\<not> paused (snd ?R)" using checked_fields(1) [OF c2] p1 by simp
  have p3: "\<not> paused (snd ?U)" using checked_fields(1) [OF c3] p2 by simp
  have p4: "\<not> paused (snd ?D)" using checked_fields(1) [OF c4] p3 by simp
  have a: "after_conditions env button escape_sequence_char s = snd ?D"
    by (simp add: after_conditions_def)
  consider (left) "fst ?L" | (right) "\<not> fst ?L" "fst ?R" | (up) "\<not> fst ?L" "\<not> fst ?R" "fst ?U"
    | (down) "\<not> fst ?L" "\<not> fst ?R" "\<not> fst ?U" "fst ?D"
    | (hard) "\<not> fst ?L" "\<not> fst ?R" "\<not> fst ?U" "\<not> fst ?D"
        "button = 1 \<or> serial_input = char_space"
    | (pause) "\<not> fst ?L" "\<not> fst ?R" "\<not> fst ?U" "\<not> fst ?D"
        "\<not> (button = 1 \<or> serial_input = char_space)"
        "serial_input = char_p \<or> serial_input = char_P"
    | (none) "\<not> fst ?L" "\<not> fst ?R" "\<not> fst ?U" "\<not> fst ?D"
        "\<not> (button = 1 \<or> serial_input = char_space)"
        "\<not> (serial_input = char_p \<or> serial_input = char_P)"
    by blast
  then show ?thesis
  proof cases
    case left
    then have "out = Continue (attempt_move MOVE_LEFT (snd ?L))"
      using out p1 by (simp add: process_input_def split_def)
    then show ?thesis using p p1 by (simp add: attempt_move_def)
  next
    case right
    then have "out = Continue (attempt_move MOVE_RIGHT (snd ?R))"
      using out p1 p2 by (simp add: process_input_def split_def)
    then show ?thesis using p p2 by (simp add: attempt_move_def)
  next
    case up
    then have "out = Continue (attempt_rotation (snd ?U))"
      using out p1 p2 p3 by (simp add: process_input_def split_def)
    then show ?thesis using p p3 by (simp add: attempt_rotation_def)
  next
    case down
    then have "Some out = (case drop_or_fix env (snd ?D) of
           GameOver g \<Rightarrow> Some (GameOver g)
         | Continue c \<Rightarrow> Some (Continue (record_drop_time env c)))"
      using out p1 p2 p3 p4 by (simp add: process_input_def split_def)
    then have "paused (state_of out) = paused (state_of (drop_or_fix env (snd ?D)))"
      by (cases "drop_or_fix env (snd ?D)")
        (auto simp: record_drop_time_def get_clock_ticks_def)
    then show ?thesis using p p4 by (simp add: drop_or_fix_fields)
  next
    case hard
    then have h: "Some out = (case drop_until_failure env (snd ?D) of
           None \<Rightarrow> None
         | Some s5 \<Rightarrow>
             (let (room, s6) = fix_block_to_board_and_add_new_block env s5 in
              if \<not> room then Some (GameOver s6) else Some (Continue s6)))"
      using out p1 p2 p3 p4 by (simp add: process_input_def split_def)
    then obtain s5 where s5: "drop_until_failure env (snd ?D) = Some s5"
      by (cases "drop_until_failure env (snd ?D)") auto
    have "state_of out = snd (fix_block_to_board_and_add_new_block env s5)"
      using h s5 by (auto simp: split_def Let_def split: if_splits)
    then show ?thesis using p p4 hard_drop_fields(1) [OF s5] by simp
  next
    case pause
    then have "out = Continue (toggle_pause env (snd ?D))"
      using out p1 p2 p3 p4 by (simp add: process_input_def split_def)
    then show ?thesis by (simp add: a)
  next
    case none
    then have "out = Continue (snd ?D)"
      using out p1 p2 p3 p4 by (simp add: process_input_def split_def)
    then show ?thesis using p p4 by simp
  qed
qed

subsection \<open>Pausing, resuming and the timer\<close>

lemma timer_events_keeps_paused:
  "paused (state_of (timer_events env s)) = paused s"
  by (auto simp: timer_events_def get_clock_ticks_def board_defs Let_def
      split: prod.splits outcome.splits if_splits)

lemma pausing_input_step:
  assumes "\<not> paused s" "input_step env s = Some (Continue c)" "paused c"
  shows "\<exists>k. clock_reads s \<le> k \<and> clock_reads c = Suc k \<and> paused_time c = clock_value env k
     \<and> last_drop_time c = last_drop_time s \<and> calls c = calls s \<and> tracker c = tracker s"
proof -
  let ?p = "poll_input s"
  let ?s1 = "snd (snd (snd ?p))"
  let ?a = "after_conditions env (fst ?p) (fst (snd (snd ?p))) ?s1"
  have r: "\<not> paused ?s1" using assms(1) by (simp add: poll_input_fields)
  have o: "process_input env (fst ?p) (fst (snd ?p)) (fst (snd (snd ?p))) ?s1 = Some (Continue c)"
    using assms(2) by (simp add: input_step_def split_def Let_def)
  have "Continue c = Continue (toggle_pause env ?a)"
    by (rule process_input_running [OF r o]) (use assms(3) in simp)
  then have c: "c = toggle_pause env ?a" by simp
  have ch: "checked env ?s1 ?a" by (rule after_conditions_checked)
  note f = checked_fields [OF ch]
  have "\<not> paused ?a" using f(1) r by simp
  then have tp: "c = ?a\<lparr>paused := True, clock_reads := Suc (clock_reads ?a),
       paused_time := clock_value env (clock_reads ?a)\<rparr>"
    unfolding c by (rule toggle_pause_pauses)
  have "clock_reads s \<le> clock_reads ?a \<and> clock_reads c = Suc (clock_reads ?a)
     \<and> paused_time c = clock_value env (clock_reads ?a)
     \<and> last_drop_time c = last_drop_time s \<and> calls c = calls s \<and> tracker c = tracker s"
    using f by (simp add: tp poll_input_fields)
  then show ?thesis by blast
qed

lemma resuming_input_step:
  assumes "paused s" "input_step env s = Some (Continue c)" "\<not> paused c"
  shows "clock_reads s < clock_reads c
     \<and> last_drop_time c
         = last_drop_time s + (clock_value env (clock_reads c - 1) - paused_time s)
     \<and> calls c = calls s \<and> tracker c = tracker s"
proof -
  let ?p = "poll_input s"
  let ?s1 = "snd (snd (snd ?p))"
  let ?a = "after_conditions env (fst ?p) (fst (snd (snd ?p))) ?s1"
  have ch: "checked env ?s1 ?a" by (rule after_conditions_checked)
  note f = checked_fields [OF ch]
  have pa: "paused ?a" using f(1) assms(1) by (simp add: poll_input_fields)
  have "c = (if fst (snd ?p) = char_p \<or> fst (snd ?p) = char_P
             then toggle_pause env ?a else ?a)"
    using input_step_paused [OF assms(1), of env] assms(2) by simp
  then have "c = toggle_pause env ?a"
    using assms(3) pa by (auto split: if_splits)
  then have tp: "c = ?a\<lparr>paused := False, clock_reads := Suc (clock_reads ?a),
       last_drop_time := last_drop_time ?a + (clock_value env (clock_reads ?a) - paused_time ?a)\<rparr>"
    by (simp add: toggle_pause_resumes [OF pa])
  show ?thesis
    using f by (simp add: tp poll_input_fields)
qed

lemma timer_events_drops_iff_due:
  assumes "\<not> paused s"
  shows "calls (state_of (timer_events env s)) \<noteq> calls s \<longleftrightarrow>
     drop_due (clock_value env (clock_reads s)) (last_drop_time s) (cleared_rows (tracker s))"
  using assms
  by (auto simp: timer_events_def get_clock_ticks_def board_defs Let_def get_cleared_rows_def
      split: prod.splits outcome.splits if_splits)

lemma shifted_drop_due:
  fixes l t1 t2 now :: "32 word"
  assumes "t1 \<le> t2" "unat rows \<le> 20"
    and "unat l + (600 - 30 * unat rows) + (unat t2 - unat t1) < 2 ^ 32"
  shows "drop_due now (l + (t2 - t1)) rows
     \<longleftrightarrow> unat l + (600 - 30 * unat rows) + (unat t2 - unat t1) \<le> unat now"
proof -
  have d: "unat (t2 - t1) = unat t2 - unat t1" using assms(1) by (rule unat_sub)
  have "unat l + unat (t2 - t1) < 2 ^ 32" using assms(3) d by simp
  then have s: "unat (l + (t2 - t1)) = unat l + (unat t2 - unat t1)"
    using d by (simp add: unat_add_lem [THEN iffD1])
  have "unat (l + (t2 - t1)) + (600 - 30 * unat rows) < 2 ^ 32"
    using assms(3) s by simp
  from drop_due_up_to_20_rows [OF assms(2) this, of now]
  have "drop_due now (l + (t2 - t1)) rows
      \<longleftrightarrow> unat l + (unat t2 - unat t1) + (600 - 30 * unat rows) \<le> unat now"
    using s by simp
  then show ?thesis by (simp only: add.assoc add.commute [of "unat t2 - unat t1"])
qed

subsection \<open>The chain with the joystick centred\<close>

lemma conditions_centred:
  assumes "joystick_centred s"
  shows "left_condition env b e s = (b = 3 \<or> e = char_D, s)"
    "right_condition env b e s = (b = 0 \<or> e = char_C, s)"
    "up_condition env b e s = (b = 2 \<or> e = char_A, s)"
    "down_condition env e s = (e = char_B, s)"
  using assms
  by (auto simp: joystick_centred_def condition_defs joystick_defs word_less_nat_alt word_le_nat_alt)

lemma process_input_centred:
  assumes "\<not> paused s" "joystick_centred s"
  shows "process_input env button serial_input escape_sequence_char s =
     (if button = 3 \<or> escape_sequence_char = char_D then
        Some (Continue (attempt_move MOVE_LEFT s))
      else if button = 0 \<or> escape_sequence_char = char_C then
        Some (Continue (attempt_move MOVE_RIGHT s))
      else if button = 2 \<or> escape_sequence_char = char_A then
        Some (Continue (attempt_rotation s))
      else if escape_sequence_char = char_B then
        (case drop_or_fix env s of
           GameOver g \<Rightarrow> Some (GameOver g)
         | Continue c \<Rightarrow> Some (Continue (record_drop_time env c)))
      else if button = 1 \<or> serial_input = char_space then
        (case drop_until_failure env s of
           None \<Rightarrow> None
         | Some s5 \<Rightarrow>
             (let (room, s6) = fix_block_to_board_and_add_new_block env s5 in
              if \<not> room then Some (GameOver s6) else Some (Continue s6)))
      else if serial_input = char_p \<or> serial_input = char_P then
        Some (Continue (toggle_pause env s))
      else Some (Continue s))"
  using assms by (simp add: process_input_def conditions_centred)

subsection \<open>The chain leaves the queues and the decoder alone\<close>

lemma process_input_queues:
  assumes out: "process_input env button serial_input escape_sequence_char s = Some out"
  shows "serial_queue (state_of out) = serial_queue s
     \<and> button_queue (state_of out) = button_queue s
     \<and> characters_into_escape_sequence (state_of out) = characters_into_escape_sequence s"
proof (cases "paused s")
  case True
  let ?a = "after_conditions env button escape_sequence_char s"
  have ch: "checked env s ?a" by (rule after_conditions_checked)
  have "out = Continue (if serial_input = char_p \<or> serial_input = char_P
                        then toggle_pause env ?a else ?a)"
    using process_input_paused [OF True, of env button serial_input escape_sequence_char] out
    by simp
  then show ?thesis
    using checked_fields(6,7,8) [OF ch] by (simp add: toggle_pause_def get_clock_ticks_def)
next
  case run: False
  let ?L = "left_condition env button escape_sequence_char s"
  let ?R = "right_condition env button escape_sequence_char (snd ?L)"
  let ?U = "up_condition env button escape_sequence_char (snd ?R)"
  let ?D = "down_condition env escape_sequence_char (snd ?U)"
  have c1: "checked env s (snd ?L)" by (rule left_condition_checked)
  have c2: "checked env s (snd ?R)" by (rule checked_trans [OF c1 right_condition_checked])
  have c3: "checked env s (snd ?U)" by (rule checked_trans [OF c2 up_condition_checked])
  have c4: "checked env s (snd ?D)" by (rule checked_trans [OF c3 down_condition_checked])
  note f1 = checked_fields(6,7,8) [OF c1] and f2 = checked_fields(6,7,8) [OF c2]
    and f3 = checked_fields(6,7,8) [OF c3] and f4 = checked_fields(6,7,8) [OF c4]
  have p1: "\<not> paused (snd ?L)" using checked_fields(1) [OF c1] run by simp
  have p2: "\<not> paused (snd ?R)" using checked_fields(1) [OF c2] run by simp
  have p3: "\<not> paused (snd ?U)" using checked_fields(1) [OF c3] run by simp
  have p4: "\<not> paused (snd ?D)" using checked_fields(1) [OF c4] run by simp
  consider (left) "fst ?L" | (right) "\<not> fst ?L" "fst ?R" | (up) "\<not> fst ?L" "\<not> fst ?R" "fst ?U"
    | (down) "\<not> fst ?L" "\<not> fst ?R" "\<not> fst ?U" "fst ?D"
    | (hard) "\<not> fst ?L" "\<not> fst ?R" "\<not> fst ?U" "\<not> fst ?D"
        "button = 1 \<or> serial_input = char_space"
    | (pause) "\<not> fst ?L" "\<not> fst ?R" "\<not> fst ?U" "\<not> fst ?D"
        "\<not> (button = 1 \<or> serial_input = char_space)"
        "serial_input = char_p \<or> serial_input = char_P"
    | (none) "\<not> fst ?L" "\<not> fst ?R" "\<not> fst ?U" "\<not> fst ?D"
        "\<not> (button = 1 \<or> serial_input = char_space)"
        "\<not> (serial_input = char_p \<or> serial_input = char_P)"
    by blast
  then show ?thesis
  proof cases
    case left
    then have "out = Continue (attempt_move MOVE_LEFT (snd ?L))"
      using out p1 by (simp add: process_input_def split_def)
    then show ?thesis using f1 by (simp add: attempt_move_def)
  next
    case right
    then have "out = Continue (attempt_move MOVE_RIGHT (snd ?R))"
      using out p1 p2 by (simp add: process_input_def split_def)
    then show ?thesis using f2 by (simp add: attempt_move_def)
  next
    case up
    then have "out = Continue (attempt_rotation (snd ?U))"
      using out p1 p2 p3 by (simp add: process_input_def split_def)
    then show ?thesis using f3 by (simp add: attempt_rotation_def)
  next
    case down
    then have "Some out = (case drop_or_fix env (snd ?D) of
           GameOver g \<Rightarrow> Some (GameOver g)
         | Continue c \<Rightarrow> Some (Continue (record_drop_time env c)))"
      using out p1 p2 p3 p4 by (simp add: process_input_def split_def)
    then have "serial_queue (state_of out) = serial_queue (state_of (drop_or_fix env (snd ?D)))
       \<and> button_queue (state_of out) = button_queue (state_of (drop_or_fix env (snd ?D)))
       \<and> characters_into_escape_sequence (state_of out)
           = characters_into_escape_sequence (state_of (drop_or_fix env (snd ?D)))"
      by (cases "drop_or_fix env (snd ?D)")
        (auto simp: record_drop_time_def get_clock_ticks_def)
    then show ?thesis using f4 by (simp add: drop_or_fix_fields)
  next
    case hard
    then have h: "Some out = (case drop_until_failure env (snd ?D) of
           None \<Rightarrow> None
         | Some s5 \<Rightarrow>
             (let (room, s6) = fix_block_to_board_and_add_new_block env s5 in
              if \<not> room then Some (GameOver s6) else Some (Continue s6)))"
      using out p1 p2 p3 p4 by (simp add: process_input_def split_def)
    then obtain s5 where s5: "drop_until_failure env (snd ?D) = Some s5"
      by (cases "drop_until_failure env (snd ?D)") auto
    have "state_of out = snd (fix_block_to_board_and_add_new_block env s5)"
      using h s5 by (auto simp: split_def Let_def split: if_splits)
    then show ?thesis using f4 hard_drop_fields(3,4,5) [OF s5] by simp
  next
    case pause
    then have "out = Continue (toggle_pause env (snd ?D))"
      using out p1 p2 p3 p4 by (simp add: process_input_def split_def)
    then show ?thesis using f4 by (simp add: toggle_pause_def get_clock_ticks_def)
  next
    case none
    then have "out = Continue (snd ?D)"
      using out p1 p2 p3 p4 by (simp add: process_input_def split_def)
    then show ?thesis using f4 by simp
  qed
qed

subsection \<open>Taking a seven-part result apart\<close>

lemma ex_conj7E:
  assumes "\<exists>c. A c \<and> B c \<and> C c \<and> D c \<and> E c \<and> F c \<and> G c"
  obtains c where "A c" "B c" "C c" "D c" "E c" "F c" "G c"
  using assms by blast

subsection \<open>The hard drop\<close>

text \<open>
  Button 1, or a space that is not the last byte of an escape sequence, in a running game
  with the joystick centred: when the board lets the block drop \<open>n\<close> times and then
  refuses, the input half of the pass makes \<open>n + 1\<close> one-row drop attempts and then
  exactly one call that fixes the block and adds a new one.
\<close>

lemma hard_drop_repeats_until_failure:
  assumes "\<not> paused s" "joystick_centred s"
    and "button_queue s = [1] \<or> (button_queue s = [] \<and> serial_queue s = char_space # q
           \<and> characters_into_escape_sequence s \<noteq> 2)"
    and "\<forall>i<n. drop_succeeds env (calls s @ replicate i AttemptDropOneRow)"
    and "\<not> drop_succeeds env (calls s @ replicate n AttemptDropOneRow)"
  shows "dispatched s (input_step env s)
     = Some (replicate (Suc n) AttemptDropOneRow @ [FixBlockAndAddNew])"
proof -
  obtain s' where p: "poll_input s = (if button_queue s = [1] then 1 else no_input,
        if button_queue s = [1] then no_input else char_space, no_input, s')"
    and s': "\<not> paused s'" "joystick_centred s'" "calls s' = calls s"
  proof (cases "button_queue s = [1]")
    case True
    have "poll_input s = (1, no_input, no_input, s\<lparr>button_queue := []\<rparr>)"
      by (rule poll_input_button [OF True]) simp
    then show ?thesis using that [of "s\<lparr>button_queue := []\<rparr>"] True assms(1,2)
      by (simp add: joystick_centred_def)
  next
    case False
    then have q: "button_queue s = []" "serial_queue s = char_space # q"
        "characters_into_escape_sequence s \<noteq> 2"
      using assms(3) by auto
    show ?thesis
      using that [of "s\<lparr>characters_into_escape_sequence := 0, serial_queue := q\<rparr>"]
        poll_input_serial [OF q(1,2)] q(3) False assms(1,2)
      by (simp add: joystick_centred_def)
  qed
  have d: "drop_until_failure env s'
      = Some (s'\<lparr>calls := calls s' @ replicate (Suc n) AttemptDropOneRow\<rparr>)"
    by (rule drop_until_failure_stops) (use assms(4,5) s'(3) in simp_all)
  have "input_step env s = process_input env (if button_queue s = [1] then 1 else no_input)
        (if button_queue s = [1] then no_input else char_space) no_input s'"
    by (simp add: input_step_def p)
  then show ?thesis
    using d s'(3)
    by (auto simp: process_input_centred [OF s'(1,2)] dispatched_def
        fix_block_to_board_and_add_new_block_def)
qed

section \<open>The cleared-rows counter saturates at 99\<close>

text \<open>
  Claim C9. Starting from \<^verbatim>\<open>init_cleared_rows()\<close>, after any number \<open>n\<close> of calls of
  \<^verbatim>\<open>increment_cleared_rows()\<close> the counter holds \<open>min n 99\<close>: it goes up by exactly
  one per call while it is below 99 and stays at 99 from then on. So it never exceeds 99,
  and no call (from any counter value at all) makes it smaller.
\<close>

theorem cleared_rows_saturates_at_99:
  "unat (cleared_rows ((increment_cleared_rows ^^ n) (init_cleared_rows t))) = min n 99
   \<and> cleared_rows ((increment_cleared_rows ^^ n) (init_cleared_rows t)) \<le> 99
   \<and> cleared_rows ((increment_cleared_rows ^^ n) (init_cleared_rows t))
       \<le> cleared_rows ((increment_cleared_rows ^^ Suc n) (init_cleared_rows t))
   \<and> cleared_rows u \<le> cleared_rows (increment_cleared_rows u)
   \<and> increment_cleared_rows (u\<lparr>cleared_rows := 99\<rparr>) = u\<lparr>cleared_rows := 99\<rparr>"
proof -
  let ?c = "\<lambda>k. cleared_rows ((increment_cleared_rows ^^ k) (init_cleared_rows t))"
  have closed: "unat (?c n) = min n 99"
    by (rule increment_calls_closed_form)
  have cap: "?c n \<le> 99"
    using closed by (simp add: word_le_nat_alt)
  have mono: "?c n \<le> ?c (Suc n)"
    by (simp add: increment_never_decreases)
  have stay: "increment_cleared_rows (u\<lparr>cleared_rows := 99\<rparr>) = u\<lparr>cleared_rows := 99\<rparr>"
    by (simp add: increment_cleared_rows_def)
  show ?thesis
    using closed cap mono stay increment_never_decreases [of u] by blast
qed


section \<open>The drop interval\<close>

text \<open>
  Claim C1. The interval of the timer is \<open>600 - 30 * cleared_rows\<close>; it is to be 600 at 0
  rows, 300 at 10 rows, and clamped to a positive minimum from 20 rows on. The code has
  no clamp. At 20 rows the interval is 0 and a drop is due in every pass. At 21 rows it
  is -30, which the conversion to \<^verbatim>\<open>uint32_t\<close> turns into 4294967266: with
  \<^verbatim>\<open>last_drop_time\<close> at 1000 the sum wraps to 970 and a drop is due at once, and with
  \<^verbatim>\<open>last_drop_time\<close> at 10 the sum is 4294967276 and no drop is due at tick 100000.
  The timer of \<^verbatim>\<open>play_game\<close>, run with 21 rows cleared at the very tick of the last
  drop, drops the block again.
\<close>

theorem drop_interval_not_clamped:
  "drop_interval 0 = 600 \<and> drop_interval 10 = 300
   \<and> drop_interval 20 = 0 \<and> drop_due 1000 1000 20
   \<and> drop_interval 21 = - 30
   \<and> (word_of_int (drop_interval 21) :: 32 word) = 4294967266
   \<and> drop_due 1000 1000 21
   \<and> \<not> drop_due 100000 10 21
   \<and> dispatched
         (game_start\<lparr>last_drop_time := 1000, tracker := \<lparr>score = 0, cleared_rows = 21\<rparr>\<rparr>)
         (Some (timer_events (resting_board (ticks_of [1000]))
            (game_start\<lparr>last_drop_time := 1000,
               tracker := \<lparr>score = 0, cleared_rows = 21\<rparr>\<rparr>)))
       = Some [AttemptDropOneRow, FixBlockAndAddNew]"
  by (simp add: drop_interval_def drop_due_def timer_events_def get_clock_ticks_def
      get_cleared_rows_def board_defs dispatched_def fixture_defs)

section \<open>Joystick thresholds\<close>

text \<open>
  Claim C2, as stated, fails: a horizontal reading above 850 is the left tilt of the code
  (\<^verbatim>\<open>is_left\<close>) and moves the block left, and a reading below 150 moves it right.
  Here the joystick reads 900, then 100, on a running game with nothing queued, at
  tick 1000.
\<close>

theorem horizontal_high_moves_left:
  "dispatched (tilted 900 500)
     (input_step (resting_board (ticks_of [1000])) (tilted 900 500))
     = Some [AttemptMove MOVE_LEFT]
   \<and> dispatched (tilted 900 500)
     (input_step (resting_board (ticks_of [1000])) (tilted 900 500))
     \<noteq> Some [AttemptMove MOVE_RIGHT]
   \<and> dispatched (tilted 100 500)
     (input_step (resting_board (ticks_of [1000])) (tilted 100 500))
     = Some [AttemptMove MOVE_RIGHT]"
  by (simp add: input_step_def poll_defs process_input_def condition_defs joystick_defs
      dispatched_def
      board_defs fixture_defs)

text \<open>
  Claim C2, amended. In a pass of a running game with no button waiting and no escape
  sequence about to complete: a horizontal reading above 850, sampled with the clock
  more than 150 ticks past \<^verbatim>\<open>joystick_time\<close>, makes the pass call
  \<^verbatim>\<open>attempt_move(MOVE_LEFT)\<close> and nothing else, and one below 150
  \<^verbatim>\<open>attempt_move(MOVE_RIGHT)\<close>; with the horizontal reading between the thresholds, a
  vertical reading above 850, sampled more than 300 ticks past \<^verbatim>\<open>joystick_time\<close>,
  makes it call \<^verbatim>\<open>attempt_rotation()\<close>, and one below 150, sampled more than 150
  ticks past it, makes it drop the block one row (and fix it when the drop fails). The
  clock is the one reading the direction's check takes, the first of the pass.
\<close>

theorem joystick_tilt_commands:
  assumes run: "\<not> paused s"
    and none: "button_queue s = []" "characters_into_escape_sequence s \<noteq> 2"
  shows "(850 < stick_x s \<and> joystick_time s + 150 < clock_value env (clock_reads s) \<longrightarrow>
            dispatched s (input_step env s) = Some [AttemptMove MOVE_LEFT])
       \<and> (stick_x s < 150 \<and> joystick_time s + 150 < clock_value env (clock_reads s) \<longrightarrow>
            dispatched s (input_step env s) = Some [AttemptMove MOVE_RIGHT])
       \<and> (150 \<le> stick_x s \<and> stick_x s \<le> 850 \<and> 850 < stick_y s
            \<and> joystick_time s + 300 < clock_value env (clock_reads s) \<longrightarrow>
            dispatched s (input_step env s) = Some [AttemptRotation])
       \<and> (150 \<le> stick_x s \<and> stick_x s \<le> 850 \<and> stick_y s < 150
            \<and> joystick_time s + 150 < clock_value env (clock_reads s) \<longrightarrow>
            dispatched s (input_step env s)
              = Some (AttemptDropOneRow #
                  (if drop_succeeds env (calls s) then [] else [FixBlockAndAddNew])))"
proof -
  obtain serial_input n q where p: "poll_input s = (no_input, serial_input, no_input,
            s\<lparr>characters_into_escape_sequence := n, serial_queue := q\<rparr>)"
    using poll_only_serial [OF none] by blast
  let ?s = "s\<lparr>characters_into_escape_sequence := n, serial_queue := q\<rparr>"
  have d: "dispatched s r = dispatched ?s r" for r
    by (simp add: dispatched_def)
  show ?thesis
    using tilt_dispatch [of ?s no_input no_input env serial_input] run
    by (simp add: input_step_def p d)
qed

text \<open>
  The last trigger was at tick 1000. A left tilt, a right tilt and a down tilt sampled
  at tick 1200, 200 ticks later, and an up tilt sampled at tick 1400, on a board where
  the block rests.
\<close>

theorem joystick_tilt_commands_witness:
  "(\<not> paused ((tilted 900 500)\<lparr>joystick_time := 1000\<rparr>) \<and> button_queue ((tilted 900 500)\<lparr>joystick_time := 1000\<rparr>) = []
    \<and> characters_into_escape_sequence ((tilted 900 500)\<lparr>joystick_time := 1000\<rparr>) \<noteq> 2
    \<and> 850 < stick_x ((tilted 900 500)\<lparr>joystick_time := 1000\<rparr>)
    \<and> joystick_time ((tilted 900 500)\<lparr>joystick_time := 1000\<rparr>) + 150
        < clock_value (resting_board (ticks_of [1200])) (clock_reads ((tilted 900 500)\<lparr>joystick_time := 1000\<rparr>))
    \<and> dispatched ((tilted 900 500)\<lparr>joystick_time := 1000\<rparr>) (input_step (resting_board (ticks_of [1200])) ((tilted 900 500)\<lparr>joystick_time := 1000\<rparr>))
        = Some [AttemptMove MOVE_LEFT])
   \<and> (\<not> paused ((tilted 100 500)\<lparr>joystick_time := 1000\<rparr>) \<and> button_queue ((tilted 100 500)\<lparr>joystick_time := 1000\<rparr>) = []
    \<and> characters_into_escape_sequence ((tilted 100 500)\<lparr>joystick_time := 1000\<rparr>) \<noteq> 2
    \<and> stick_x ((tilted 100 500)\<lparr>joystick_time := 1000\<rparr>) < 150
    \<and> joystick_time ((tilted 100 500)\<lparr>joystick_time := 1000\<rparr>) + 150
        < clock_value (resting_board (ticks_of [1200])) (clock_reads ((tilted 100 500)\<lparr>joystick_time := 1000\<rparr>))
    \<and> dispatched ((tilted 100 500)\<lparr>joystick_time := 1000\<rparr>) (input_step (resting_board (ticks_of [1200])) ((tilted 100 500)\<lparr>joystick_time := 1000\<rparr>))
        = Some [AttemptMove MOVE_RIGHT])
   \<and> (\<not> paused ((tilted 500 900)\<lparr>joystick_time := 1000\<rparr>) \<and> button_queue ((tilted 500 900)\<lparr>joystick_time := 1000\<rparr>) = []
    \<and> characters_into_escape_sequence ((tilted 500 900)\<lparr>joystick_time := 1000\<rparr>) \<noteq> 2
    \<and> 150 \<le> stick_x ((tilted 500 900)\<lparr>joystick_time := 1000\<rparr>) \<and> stick_x ((tilted 500 900)\<lparr>joystick_time := 1000\<rparr>) \<le> 850 \<and> 850 < stick_y ((tilted 500 900)\<lparr>joystick_time := 1000\<rparr>)
    \<and> joystick_time ((tilted 500 900)\<lparr>joystick_time := 1000\<rparr>) + 300
        < clock_value (resting_board (ticks_of [1400])) (clock_reads ((tilted 500 900)\<lparr>joystick_time := 1000\<rparr>))
    \<and> dispatched ((tilted 500 900)\<lparr>joystick_time := 1000\<rparr>) (input_step (resting_board (ticks_of [1400])) ((tilted 500 900)\<lparr>joystick_time := 1000\<rparr>))
        = Some [AttemptRotation])
   \<and> (\<not> paused ((tilted 500 100)\<lparr>joystick_time := 1000\<rparr>) \<and> button_queue ((tilted 500 100)\<lparr>joystick_time := 1000\<rparr>) = []
    \<and> characters_into_escape_sequence ((tilted 500 100)\<lparr>joystick_time := 1000\<rparr>) \<noteq> 2
    \<and> 150 \<le> stick_x ((tilted 500 100)\<lparr>joystick_time := 1000\<rparr>) \<and> stick_x ((tilted 500 100)\<lparr>joystick_time := 1000\<rparr>) \<le> 850 \<and> stick_y ((tilted 500 100)\<lparr>joystick_time := 1000\<rparr>) < 150
    \<and> joystick_time ((tilted 500 100)\<lparr>joystick_time := 1000\<rparr>) + 150
        < clock_value (resting_board (ticks_of [1200])) (clock_reads ((tilted 500 100)\<lparr>joystick_time := 1000\<rparr>))
    \<and> dispatched ((tilted 500 100)\<lparr>joystick_time := 1000\<rparr>) (input_step (resting_board (ticks_of [1200])) ((tilted 500 100)\<lparr>joystick_time := 1000\<rparr>))
        = Some [AttemptDropOneRow, FixBlockAndAddNew])"
proof -
  have h: "\<not> paused ((tilted x y)\<lparr>joystick_time := 1000\<rparr>)"
      "button_queue ((tilted x y)\<lparr>joystick_time := 1000\<rparr>) = []"
      "characters_into_escape_sequence ((tilted x y)\<lparr>joystick_time := 1000\<rparr>) \<noteq> 2" for x y
    by (simp_all add: fixture_defs)
  have t: "850 < stick_x ((tilted 900 500)\<lparr>joystick_time := 1000\<rparr>)"
      "stick_x ((tilted 100 500)\<lparr>joystick_time := 1000\<rparr>) < 150"
      "150 \<le> stick_x ((tilted 500 900)\<lparr>joystick_time := 1000\<rparr>)
         \<and> stick_x ((tilted 500 900)\<lparr>joystick_time := 1000\<rparr>) \<le> 850
         \<and> 850 < stick_y ((tilted 500 900)\<lparr>joystick_time := 1000\<rparr>)"
      "150 \<le> stick_x ((tilted 500 100)\<lparr>joystick_time := 1000\<rparr>)
         \<and> stick_x ((tilted 500 100)\<lparr>joystick_time := 1000\<rparr>) \<le> 850
         \<and> stick_y ((tilted 500 100)\<lparr>joystick_time := 1000\<rparr>) < 150"
    by (simp_all add: fixture_defs)
  have w: "joystick_time ((tilted x y)\<lparr>joystick_time := 1000\<rparr>) + 150
        < clock_value (resting_board (ticks_of [1200]))
            (clock_reads ((tilted x y)\<lparr>joystick_time := 1000\<rparr>))"
      "joystick_time ((tilted x y)\<lparr>joystick_time := 1000\<rparr>) + 300
        < clock_value (resting_board (ticks_of [1400]))
            (clock_reads ((tilted x y)\<lparr>joystick_time := 1000\<rparr>))" for x y
    by (simp_all add: fixture_defs)
  have b: "\<not> drop_succeeds (resting_board (ticks_of [1200]))
              (calls ((tilted 500 100)\<lparr>joystick_time := 1000\<rparr>))"
    by (simp add: fixture_defs)
  note c = joystick_tilt_commands [OF h]
  have 1: "dispatched ((tilted 900 500)\<lparr>joystick_time := 1000\<rparr>)
        (input_step (resting_board (ticks_of [1200])) ((tilted 900 500)\<lparr>joystick_time := 1000\<rparr>))
      = Some [AttemptMove MOVE_LEFT]"
    using c [of 900 500 "resting_board (ticks_of [1200])"] t(1) w(1) by blast
  have 2: "dispatched ((tilted 100 500)\<lparr>joystick_time := 1000\<rparr>)
        (input_step (resting_board (ticks_of [1200])) ((tilted 100 500)\<lparr>joystick_time := 1000\<rparr>))
      = Some [AttemptMove MOVE_RIGHT]"
    using c [of 100 500 "resting_board (ticks_of [1200])"] t(2) w(1) by blast
  have 3: "dispatched ((tilted 500 900)\<lparr>joystick_time := 1000\<rparr>)
        (input_step (resting_board (ticks_of [1400])) ((tilted 500 900)\<lparr>joystick_time := 1000\<rparr>))
      = Some [AttemptRotation]"
    using c [of 500 900 "resting_board (ticks_of [1400])"] t(3) w(2) by blast
  have 4: "dispatched ((tilted 500 100)\<lparr>joystick_time := 1000\<rparr>)
        (input_step (resting_board (ticks_of [1200])) ((tilted 500 100)\<lparr>joystick_time := 1000\<rparr>))
      = Some [AttemptDropOneRow, FixBlockAndAddNew]"
    using c [of 500 100 "resting_board (ticks_of [1200])"] t(4) w(1) b by simp
  show ?thesis
    using h [of 900 500] h [of 100 500] h [of 500 900] h [of 500 100] t
      w(1) [of 900 500] w(1) [of 100 500] w(2) [of 500 900] w(1) [of 500 100] 1 2 3 4
    by blast
qed

section \<open>Joystick debounce\<close>

text \<open>
  Claim C3, as stated, fails: the four directions share one timestamp,
  \<^verbatim>\<open>joystick_time\<close>. With the joystick held left and down, the left tilt fires at
  tick 1000 and sets the timestamp to 1000; at tick 1100 the down tilt, which has never
  fired, is suppressed, though alone it would fire at tick 1100. And with the timestamp
  at its initial 0, a horizontal reading of 900 sampled at tick 0 fires nothing.
\<close>

theorem debounce_timestamp_is_shared:
  "fst (is_left (resting_board (ticks_of [1000, 1000, 1100])) (tilted 900 100))
   \<and> joystick_time (snd (is_left (resting_board (ticks_of [1000, 1000, 1100])) (tilted 900 100)))
       = 1000
   \<and> \<not> fst (is_down_stick (resting_board (ticks_of [1000, 1000, 1100]))
         (snd (is_left (resting_board (ticks_of [1000, 1000, 1100])) (tilted 900 100))))
   \<and> fst (is_down_stick (resting_board (ticks_of [1100])) (tilted 900 100))
   \<and> \<not> fst (is_left (resting_board (ticks_of [0])) (tilted 900 500))
   \<and> \<not> fst (is_right (resting_board (ticks_of [0])) (tilted 900 500))"
  by (simp add: joystick_defs fixture_defs)

text \<open>
  Claim C3, amended. The four checks compare the clock with the same
  \<^verbatim>\<open>joystick_time\<close>, the tick of the last trigger of any direction, and as long as
  adding the window to it does not wrap around: a check whose threshold is met more than
  its window (150 ticks for left, right and down, 300 for up) after that tick fires, and
  sets \<^verbatim>\<open>joystick_time\<close> to the clock's next reading, changing nothing else but the
  count of clock reads; a check made fewer ticks than its window after it does not fire
  and leaves \<^verbatim>\<open>joystick_time\<close> as it is; a check whose threshold is not met changes
  nothing. So, with a horizontal reading of 900 and the timestamp at 0, the samples at
  ticks 0 and 100 are suppressed and the sample at tick 151 fires.
\<close>

theorem joystick_debounce_shared:
  assumes "unat (joystick_time s) + 300 < 2 ^ 32"
  shows "((850 < stick_x s) \<and> unat (joystick_time s) + 150 < unat (clock_value env (clock_reads s)) \<longrightarrow>
          is_left env s = (True, s\<lparr>joystick_time := clock_value env (Suc (clock_reads s)),
                                clock_reads := Suc (Suc (clock_reads s))\<rparr>))
     \<and> (unat (clock_value env (clock_reads s)) < unat (joystick_time s) + 150 \<longrightarrow>
          \<not> fst (is_left env s) \<and> joystick_time (snd (is_left env s)) = joystick_time s)
     \<and> (\<not> (850 < stick_x s) \<longrightarrow> is_left env s = (False, s))
     \<and> ((stick_x s < 150) \<and> unat (joystick_time s) + 150 < unat (clock_value env (clock_reads s)) \<longrightarrow>
          is_right env s = (True, s\<lparr>joystick_time := clock_value env (Suc (clock_reads s)),
                                clock_reads := Suc (Suc (clock_reads s))\<rparr>))
     \<and> (unat (clock_value env (clock_reads s)) < unat (joystick_time s) + 150 \<longrightarrow>
          \<not> fst (is_right env s) \<and> joystick_time (snd (is_right env s)) = joystick_time s)
     \<and> (\<not> (stick_x s < 150) \<longrightarrow> is_right env s = (False, s))
     \<and> ((850 < stick_y s) \<and> unat (joystick_time s) + 300 < unat (clock_value env (clock_reads s)) \<longrightarrow>
          is_up_stick env s = (True, s\<lparr>joystick_time := clock_value env (Suc (clock_reads s)),
                                clock_reads := Suc (Suc (clock_reads s))\<rparr>))
     \<and> (unat (clock_value env (clock_reads s)) < unat (joystick_time s) + 300 \<longrightarrow>
          \<not> fst (is_up_stick env s) \<and> joystick_time (snd (is_up_stick env s)) = joystick_time s)
     \<and> (\<not> (850 < stick_y s) \<longrightarrow> is_up_stick env s = (False, s))
     \<and> ((stick_y s < 150) \<and> unat (joystick_time s) + 150 < unat (clock_value env (clock_reads s)) \<longrightarrow>
          is_down_stick env s = (True, s\<lparr>joystick_time := clock_value env (Suc (clock_reads s)),
                                clock_reads := Suc (Suc (clock_reads s))\<rparr>))
     \<and> (unat (clock_value env (clock_reads s)) < unat (joystick_time s) + 150 \<longrightarrow>
          \<not> fst (is_down_stick env s) \<and> joystick_time (snd (is_down_stick env s)) = joystick_time s)
     \<and> (\<not> (stick_y s < 150) \<longrightarrow> is_down_stick env s = (False, s))"
proof -
  have a: "unat (joystick_time s) + 150 < 2 ^ 32" using assms by simp
  show ?thesis
    using word_less_plus_nat [OF a, of "clock_value env (clock_reads s)"]
      word_less_plus_nat [OF assms, of "clock_value env (clock_reads s)"]
    by (simp add: joystick_defs)
qed

text \<open>A horizontal reading of 900 with the timestamp at 0, sampled at ticks 151, 100 and 0; a down tilt 100 ticks after a trigger at tick 1000; and a check whose threshold is not met.\<close>

theorem joystick_debounce_shared_witness:
  "unat (joystick_time (tilted 900 500)) + 300 < 2 ^ 32
   \<and> 850 < stick_x (tilted 900 500)
   \<and> unat (joystick_time (tilted 900 500)) + 150
       < unat (clock_value (resting_board (ticks_of [151])) (clock_reads (tilted 900 500)))
   \<and> is_left (resting_board (ticks_of [151])) (tilted 900 500)
       = (True, (tilted 900 500)\<lparr>joystick_time := 151, clock_reads := 2\<rparr>)
   \<and> unat (clock_value (resting_board (ticks_of [100])) (clock_reads (tilted 900 500)))
       < unat (joystick_time (tilted 900 500)) + 150
   \<and> \<not> fst (is_left (resting_board (ticks_of [100])) (tilted 900 500))
   \<and> unat (clock_value (resting_board (ticks_of [0])) (clock_reads (tilted 900 500)))
       < unat (joystick_time (tilted 900 500)) + 150
   \<and> \<not> fst (is_left (resting_board (ticks_of [0])) (tilted 900 500))
   \<and> unat (joystick_time ((tilted 900 100)\<lparr>joystick_time := 1000\<rparr>)) + 300 < 2 ^ 32
   \<and> unat (clock_value (resting_board (ticks_of [1100]))
         (clock_reads ((tilted 900 100)\<lparr>joystick_time := 1000\<rparr>)))
       < unat (joystick_time ((tilted 900 100)\<lparr>joystick_time := 1000\<rparr>)) + 150
   \<and> \<not> fst (is_down_stick (resting_board (ticks_of [1100]))
         ((tilted 900 100)\<lparr>joystick_time := 1000\<rparr>))
   \<and> \<not> stick_x (tilted 900 500) < 150
   \<and> is_right (resting_board (ticks_of [151])) (tilted 900 500) = (False, tilted 900 500)"
proof -
  have h: "unat (joystick_time (tilted 900 500)) + 300 < 2 ^ 32"
    and h': "unat (joystick_time ((tilted 900 100)\<lparr>joystick_time := 1000\<rparr>)) + 300 < 2 ^ 32"
    by (simp_all add: fixture_defs)
  have a: "850 < stick_x (tilted 900 500)" "\<not> stick_x (tilted 900 500) < 150"
    "unat (joystick_time (tilted 900 500)) + 150
       < unat (clock_value (resting_board (ticks_of [151])) (clock_reads (tilted 900 500)))"
    "unat (clock_value (resting_board (ticks_of [100])) (clock_reads (tilted 900 500)))
       < unat (joystick_time (tilted 900 500)) + 150"
    "unat (clock_value (resting_board (ticks_of [0])) (clock_reads (tilted 900 500)))
       < unat (joystick_time (tilted 900 500)) + 150"
    "unat (clock_value (resting_board (ticks_of [1100]))
         (clock_reads ((tilted 900 100)\<lparr>joystick_time := 1000\<rparr>)))
       < unat (joystick_time ((tilted 900 100)\<lparr>joystick_time := 1000\<rparr>)) + 150"
    by (simp_all add: fixture_defs)
  have v: "clock_value (resting_board (ticks_of [151])) (Suc (clock_reads (tilted 900 500))) = 151"
    "Suc (Suc (clock_reads (tilted 900 500))) = 2"
    by (simp_all add: fixture_defs)
  show ?thesis
    using joystick_debounce_shared [OF h, of "resting_board (ticks_of [151])"]
      joystick_debounce_shared [OF h, of "resting_board (ticks_of [100])"]
      joystick_debounce_shared [OF h, of "resting_board (ticks_of [0])"]
      joystick_debounce_shared [OF h', of "resting_board (ticks_of [1100])"]
      h h' a v
    by simp
qed

section \<open>While the game is paused\<close>

text \<open>
  Claim C8, as stated, fails: in \<^verbatim>\<open>(get_clock_ticks() >= ...) && !paused\<close> the
  comparison is the left operand, so the timer test is made in a paused pass too, its
  clock read included. Here the game is paused at tick 1000, 1000 ticks after the last
  drop: the comparison holds, the timer half has read the clock, and nothing else has
  changed.
\<close>

theorem paused_timer_still_compares:
  "paused (game_start\<lparr>paused := True\<rparr>)
   \<and> drop_due
         (clock_value (resting_board (ticks_of [1000]))
            (clock_reads (game_start\<lparr>paused := True\<rparr>)))
         (last_drop_time (game_start\<lparr>paused := True\<rparr>))
         (get_cleared_rows (tracker (game_start\<lparr>paused := True\<rparr>)))
   \<and> timer_events (resting_board (ticks_of [1000])) (game_start\<lparr>paused := True\<rparr>)
       = Continue (game_start\<lparr>paused := True, clock_reads := 1\<rparr>)
   \<and> clock_reads (game_start\<lparr>paused := True, clock_reads := 1\<rparr>)
       \<noteq> clock_reads (game_start\<lparr>paused := True\<rparr>)"
  by (simp add: timer_events_def get_clock_ticks_def drop_due_def drop_interval_def
      get_cleared_rows_def fixture_defs)

text \<open>
  Claim C8, amended. A pass that starts with the game paused makes no call to the board
  in its input half: no move, no rotation, no soft drop, no hard drop. It ends with the
  game running exactly when the serial input it processed is \<^verbatim>\<open>p\<close> or \<^verbatim>\<open>P\<close>;
  otherwise the game stays paused, \<^verbatim>\<open>last_drop_time\<close> and \<^verbatim>\<open>paused_time\<close> keep their
  values, and the timer half reads the clock for its comparison and does nothing else,
  whatever the comparison gives: no drop is made however long ago the last one was.
\<close>

theorem paused_pass_dispatches_nothing:
  assumes "paused s"
  shows "\<exists>c. input_step env (convert_joystick adc s) = Some (Continue c)
     \<and> calls c = calls s \<and> tracker c = tracker s
     \<and> (\<not> paused c \<longleftrightarrow> fst (snd (poll_input (convert_joystick adc s))) \<in> {char_p, char_P})
     \<and> (paused c \<longrightarrow> last_drop_time c = last_drop_time s \<and> paused_time c = paused_time s
            \<and> iteration env adc s = Some (Continue (c\<lparr>clock_reads := Suc (clock_reads c)\<rparr>)))"
  using paused_pass_frame [OF assms, of env adc] by blast

text \<open>A paused game with the hard-drop button waiting and the last drop 1000 ticks ago, and a paused game that receives \<^verbatim>\<open>p\<close>.\<close>

theorem paused_pass_dispatches_nothing_witness:
  "paused (game_start\<lparr>paused := True, button_queue := [1]\<rparr>)
   \<and> (\<exists>c. input_step (resting_board (ticks_of [1000]))
              (convert_joystick 500 (game_start\<lparr>paused := True, button_queue := [1]\<rparr>))
            = Some (Continue c)
        \<and> calls c = calls (game_start\<lparr>paused := True, button_queue := [1]\<rparr>)
        \<and> paused c
        \<and> last_drop_time c = last_drop_time (game_start\<lparr>paused := True, button_queue := [1]\<rparr>)
        \<and> iteration (resting_board (ticks_of [1000])) 500
              (game_start\<lparr>paused := True, button_queue := [1]\<rparr>)
            = Some (Continue (c\<lparr>clock_reads := Suc (clock_reads c)\<rparr>)))
   \<and> paused (game_start\<lparr>paused := True, serial_queue := [char_p]\<rparr>)
   \<and> (\<exists>c. input_step (resting_board (ticks_of [1000]))
              (convert_joystick 500 (game_start\<lparr>paused := True, serial_queue := [char_p]\<rparr>))
            = Some (Continue c)
        \<and> calls c = calls (game_start\<lparr>paused := True, serial_queue := [char_p]\<rparr>)
        \<and> \<not> paused c)"
proof -
  let ?env = "resting_board (ticks_of [1000])"
  let ?s1 = "game_start\<lparr>paused := True, button_queue := [1]\<rparr>"
  let ?s2 = "game_start\<lparr>paused := True, serial_queue := [char_p]\<rparr>"
  have p: "paused ?s1" "paused ?s2"
    by (simp_all add: fixture_defs)
  have i: "fst (snd (poll_input (convert_joystick 500 ?s1))) \<notin> {char_p, char_P}"
      "fst (snd (poll_input (convert_joystick 500 ?s2))) \<in> {char_p, char_P}"
    by (simp_all add: fixture_defs poll_defs convert_joystick_def)
  have w1: "\<exists>c. input_step ?env (convert_joystick 500 ?s1) = Some (Continue c)
        \<and> calls c = calls ?s1 \<and> paused c \<and> last_drop_time c = last_drop_time ?s1
        \<and> iteration ?env 500 ?s1 = Some (Continue (c\<lparr>clock_reads := Suc (clock_reads c)\<rparr>))"
    using paused_pass_dispatches_nothing [OF p(1), of ?env 500] i(1) by blast
  have w2: "\<exists>c. input_step ?env (convert_joystick 500 ?s2) = Some (Continue c)
        \<and> calls c = calls ?s2 \<and> \<not> paused c"
    using paused_pass_dispatches_nothing [OF p(2), of ?env 500] i(2) by blast
  show ?thesis using p w1 w2 by blast
qed

text \<open>
  Claim C10, as stated, fails, in three places. With the game paused, button 3 waiting
  and the joystick held left (reading 900, window over at tick 1000), the pass takes the
  button from the queue and does not call \<^verbatim>\<open>is_left()\<close>: \<^verbatim>\<open>button==3\<close> already
  decides the \<^verbatim>\<open>||\<close>, and \<^verbatim>\<open>joystick_time\<close> stays 0. With a button and a serial
  byte both waiting, the byte is not read in that pass. And input that arrives during a
  pause can take effect after the resume: when \<^verbatim>\<open>p\<close> and a space arrive while the game
  is paused, the next pass resumes the game and leaves the space queued, and the pass
  after it makes the hard drop.
\<close>

theorem paused_input_exceptions:
  "paused ((tilted 900 500)\<lparr>paused := True, button_queue := [3]\<rparr>)
   \<and> 850 < stick_x ((tilted 900 500)\<lparr>paused := True, button_queue := [3]\<rparr>)
   \<and> joystick_time ((tilted 900 500)\<lparr>paused := True, button_queue := [3]\<rparr>) + 150
       < clock_value (resting_board (ticks_of [1000]))
           (clock_reads ((tilted 900 500)\<lparr>paused := True, button_queue := [3]\<rparr>))
   \<and> input_step (resting_board (ticks_of [1000]))
         ((tilted 900 500)\<lparr>paused := True, button_queue := [3]\<rparr>)
       = Some (Continue ((tilted 900 500)\<lparr>paused := True, button_queue := []\<rparr>))
   \<and> joystick_time ((tilted 900 500)\<lparr>paused := True, button_queue := []\<rparr>) = 0
   \<and> input_step (resting_board (ticks_of [1000]))
         (game_start\<lparr>paused := True, button_queue := [3], serial_queue := [char_p]\<rparr>)
       = Some (Continue (game_start\<lparr>paused := True, button_queue := [],
                 serial_queue := [char_p]\<rparr>))
   \<and> paused (game_start\<lparr>paused := True\<rparr>)
   \<and> play_iterations (resting_board (ticks_of [1000]))
         [\<lparr>adc_reading = 500, buttons_pushed = [], bytes_received = [char_p, char_space]\<rparr>]
         (game_start\<lparr>paused := True\<rparr>)
       = Some (Continue (game_start\<lparr>last_drop_time := 1000, target_pin := 1,
                 serial_queue := [char_space], clock_reads := 2\<rparr>))
   \<and> play_iterations (resting_board (ticks_of [1000]))
         [\<lparr>adc_reading = 500, buttons_pushed = [], bytes_received = [char_p, char_space]\<rparr>,
          quiet]
         (game_start\<lparr>paused := True\<rparr>)
       = Some (Continue (game_start\<lparr>last_drop_time := 1000, clock_reads := 3,
                 calls := [AttemptDropOneRow, FixBlockAndAddNew]\<rparr>))"
  by (simp add: iteration_def input_step_def poll_defs process_input_def condition_defs
      joystick_defs toggle_pause_def timer_events_def drop_due_def drop_interval_def
      get_cleared_rows_def board_defs convert_joystick_def arrive_def fixture_defs
      drop_until_failure.simps)

text \<open>
  Claim C10, amended. A pass that starts with the game paused makes no call to the
  board, and still consumes input: a waiting button event is taken from the queue and
  dropped; when no button is waiting, a waiting serial byte is read and moves the escape
  decoder as it does in a running game; and a tilt that is beyond its threshold, with
  its window over at every clock read of the pass, sets \<^verbatim>\<open>joystick_time\<close> to a clock
  reading taken in this pass, unless the button or the cursor key of the same direction
  is processed in this pass (which skips that direction's check). So the input consumed
  during a pause never reaches the board: over any number of passes that stay paused
  no board call is made, and the pass that resumes the game had no button waiting and
  leaves the escape decoder in state 0, having read the \<^verbatim>\<open>p\<close> or \<^verbatim>\<open>P\<close> at the head
  of the serial queue as an ordinary byte. The bytes queued behind it are still queued
  and are processed after the resume.
\<close>

theorem paused_pass_consumes_input:
  assumes "paused s"
  shows "\<exists>c. input_step env s = Some (Continue c) \<and> calls c = calls s
     \<and> (\<forall>b bs. button_queue s = b # bs \<and> b \<noteq> no_input \<longrightarrow>
            button_queue c = bs \<and> serial_queue c = serial_queue s \<and> paused c)
     \<and> (\<forall>x xs. button_queue s = [] \<and> serial_queue s = x # xs \<longrightarrow>
            serial_queue c = xs
            \<and> characters_into_escape_sequence c =
                (if characters_into_escape_sequence s = 0 \<and> x = ESCAPE_CHAR then 1
                 else if characters_into_escape_sequence s = 1 \<and> x = char_lbracket then 2
                 else 0))
     \<and> ((fst (poll_input s) \<noteq> 3 \<and> fst (snd (snd (poll_input s))) \<noteq> char_D
            \<and> 850 < stick_x s
            \<and> (\<forall>k\<ge>clock_reads s. joystick_time s + 150 < clock_value env k))
         \<or> (fst (poll_input s) \<noteq> 0 \<and> fst (snd (snd (poll_input s))) \<noteq> char_C
            \<and> stick_x s < 150
            \<and> (\<forall>k\<ge>clock_reads s. joystick_time s + 150 < clock_value env k))
         \<or> (fst (poll_input s) \<noteq> 2 \<and> fst (snd (snd (poll_input s))) \<noteq> char_A
            \<and> 850 < stick_y s
            \<and> (\<forall>k\<ge>clock_reads s. joystick_time s + 300 < clock_value env k))
         \<or> (fst (snd (snd (poll_input s))) \<noteq> char_B
            \<and> stick_y s < 150
            \<and> (\<forall>k\<ge>clock_reads s. joystick_time s + 150 < clock_value env k))
         \<longrightarrow> (\<exists>k. clock_reads s \<le> k \<and> k < clock_reads c
                \<and> joystick_time c = clock_value env k))
     \<and> (\<not> paused c \<longrightarrow>
            fst (poll_input s) = no_input
            \<and> characters_into_escape_sequence s \<noteq> 2
            \<and> characters_into_escape_sequence c = 0
            \<and> (\<exists>x q. serial_queue s = x # q \<and> (x = char_p \<or> x = char_P)
                   \<and> serial_queue c = q))
     \<and> (\<forall>as s1. paused_passes env as s = Some s1 \<longrightarrow> paused s1 \<and> calls s1 = calls s)"
proof -
  let ?p = "poll_input s"
  let ?b = "fst ?p" and ?si = "fst (snd ?p)" and ?e = "fst (snd (snd ?p))"
  let ?s1 = "snd (snd (snd ?p))"
  let ?a = "after_conditions env ?b ?e ?s1"
  let ?c = "if ?si = char_p \<or> ?si = char_P then toggle_pause env ?a else ?a"
  have step: "input_step env s = Some (Continue ?c)"
    by (rule input_step_paused [OF assms])
  have ch: "checked env ?s1 ?a" by (rule after_conditions_checked)
  note f = checked_fields [OF ch]
  have pa: "paused ?a" using f(1) assms by (simp add: poll_input_fields)
  have tp: "toggle_pause env ?a =
      ?a\<lparr>paused := False, clock_reads := Suc (clock_reads ?a),
         last_drop_time := last_drop_time ?a + (clock_value env (clock_reads ?a) - paused_time ?a)\<rparr>"
    by (rule toggle_pause_resumes [OF pa])
  have calls: "calls ?c = calls s"
    using f(2) by (simp add: tp poll_input_fields)
  have button: "button_queue ?c = bs \<and> serial_queue ?c = serial_queue s \<and> paused ?c"
    if "button_queue s = b # bs" "b \<noteq> no_input" for b bs
  proof -
    have q: "button_queue ?s1 = bs" "serial_queue ?s1 = serial_queue s" "?si = no_input"
      by (simp_all add: poll_input_button [OF that])
    have "?c = ?a" by (simp add: q(3))
    then show ?thesis using f(7,8) pa q(1,2) by simp
  qed
  have serial: "serial_queue ?c = xs
      \<and> characters_into_escape_sequence ?c =
          (if characters_into_escape_sequence s = 0 \<and> x = ESCAPE_CHAR then 1
           else if characters_into_escape_sequence s = 1 \<and> x = char_lbracket then 2
           else 0)"
    if "button_queue s = []" "serial_queue s = x # xs" for x xs
  proof -
    have q: "serial_queue ?s1 = xs"
      "characters_into_escape_sequence ?s1 =
          (if characters_into_escape_sequence s = 0 \<and> x = ESCAPE_CHAR then 1
           else if characters_into_escape_sequence s = 1 \<and> x = char_lbracket then 2
           else 0)"
      by (simp_all add: poll_input_serial [OF that])
    have "serial_queue ?c = serial_queue ?s1"
      "characters_into_escape_sequence ?c = characters_into_escape_sequence ?s1"
      using f(6,8) by (simp_all add: tp)
    then show ?thesis by (simp only: q simp_thms)
  qed
  have stick: "\<exists>k. clock_reads s \<le> k \<and> k < clock_reads ?c \<and> joystick_time ?c = clock_value env k"
    if "(?b \<noteq> 3 \<and> ?e \<noteq> char_D \<and> 850 < stick_x s
            \<and> (\<forall>k\<ge>clock_reads s. joystick_time s + 150 < clock_value env k))
         \<or> (?b \<noteq> 0 \<and> ?e \<noteq> char_C \<and> stick_x s < 150
            \<and> (\<forall>k\<ge>clock_reads s. joystick_time s + 150 < clock_value env k))
         \<or> (?b \<noteq> 2 \<and> ?e \<noteq> char_A \<and> 850 < stick_y s
            \<and> (\<forall>k\<ge>clock_reads s. joystick_time s + 300 < clock_value env k))
         \<or> (?e \<noteq> char_B \<and> stick_y s < 150
            \<and> (\<forall>k\<ge>clock_reads s. joystick_time s + 150 < clock_value env k))"
  proof -
    have "stamped env ?s1 ?a"
      by (rule after_conditions_stamped) (use that in \<open>simp add: poll_input_fields\<close>)
    then obtain k n where
      k: "?a = ?s1\<lparr>joystick_time := clock_value env k, clock_reads := n\<rparr>"
        "clock_reads ?s1 \<le> k" "k < n"
      by (rule stampedE)
    have j: "joystick_time ?a = clock_value env k" and n: "clock_reads ?a = n"
      by (simp_all add: arg_cong [OF k(1), of joystick_time] arg_cong [OF k(1), of clock_reads])
    have "clock_reads s \<le> k \<and> k < clock_reads ?c \<and> joystick_time ?c = clock_value env k"
      using k(2,3) j n by (simp add: tp poll_input_fields)
    then show ?thesis by blast
  qed
  have resume: "?b = no_input \<and> characters_into_escape_sequence s \<noteq> 2
      \<and> characters_into_escape_sequence ?c = 0
      \<and> (\<exists>x q. serial_queue s = x # q \<and> (x = char_p \<or> x = char_P) \<and> serial_queue ?c = q)"
    if "\<not> paused ?c"
  proof -
    have si: "?si = char_p \<or> ?si = char_P"
      using that pa by (auto split: if_splits)
    then have "?si \<noteq> no_input" by auto
    then have o: "?b = no_input" "characters_into_escape_sequence s \<noteq> 2"
        "characters_into_escape_sequence ?s1 = 0" "serial_queue s = ?si # serial_queue ?s1"
      using poll_input_ordinary [of s] by simp_all
    have "characters_into_escape_sequence ?c = characters_into_escape_sequence ?s1"
        "serial_queue ?c = serial_queue ?s1"
      using f(6,8) by (simp_all add: tp)
    then show ?thesis using o si by auto
  qed
  have passes: "paused s1 \<and> calls s1 = calls s"
    if "paused_passes env as s = Some s1" for as s1
    using paused_passes_frame [OF assms that] by simp
  have f3: "\<forall>b bs. button_queue s = b # bs \<and> b \<noteq> no_input \<longrightarrow>
            button_queue ?c = bs \<and> serial_queue ?c = serial_queue s \<and> paused ?c"
    using button by blast
  have f4: "\<forall>x xs. button_queue s = [] \<and> serial_queue s = x # xs \<longrightarrow>
            serial_queue ?c = xs
            \<and> characters_into_escape_sequence ?c =
                (if characters_into_escape_sequence s = 0 \<and> x = ESCAPE_CHAR then 1
                 else if characters_into_escape_sequence s = 1 \<and> x = char_lbracket then 2
                 else 0)"
    using serial by blast
  have f5: "(?b \<noteq> 3 \<and> ?e \<noteq> char_D \<and> 850 < stick_x s
            \<and> (\<forall>k\<ge>clock_reads s. joystick_time s + 150 < clock_value env k))
         \<or> (?b \<noteq> 0 \<and> ?e \<noteq> char_C \<and> stick_x s < 150
            \<and> (\<forall>k\<ge>clock_reads s. joystick_time s + 150 < clock_value env k))
         \<or> (?b \<noteq> 2 \<and> ?e \<noteq> char_A \<and> 850 < stick_y s
            \<and> (\<forall>k\<ge>clock_reads s. joystick_time s + 300 < clock_value env k))
         \<or> (?e \<noteq> char_B \<and> stick_y s < 150
            \<and> (\<forall>k\<ge>clock_reads s. joystick_time s + 150 < clock_value env k))
         \<longrightarrow> (\<exists>k. clock_reads s \<le> k \<and> k < clock_reads ?c
                \<and> joystick_time ?c = clock_value env k)"
    by (rule impI) (rule stick)
  have f6: "\<not> paused ?c \<longrightarrow>
            ?b = no_input
            \<and> characters_into_escape_sequence s \<noteq> 2
            \<and> characters_into_escape_sequence ?c = 0
            \<and> (\<exists>x q. serial_queue s = x # q \<and> (x = char_p \<or> x = char_P)
                   \<and> serial_queue ?c = q)"
    by (rule impI) (rule resume)
  have f7: "\<forall>as s1. paused_passes env as s = Some s1 \<longrightarrow> paused s1 \<and> calls s1 = calls s"
    using passes by blast
  show ?thesis
    by (rule exI [where x = ?c]) (intro conjI step calls f3 f4 f5 f6 f7)
qed

text \<open>
  A paused game with the joystick held left, one with button 1 waiting, one that
  receives ESC, one that has \<^verbatim>\<open>p\<close> and a space queued, and one that goes through a
  pass with no input.
\<close>

theorem paused_pass_consumes_input_witness:
  "paused ((tilted 900 500)\<lparr>paused := True\<rparr>)
   \<and> (\<exists>c k. input_step (resting_board (ticks_of [1000])) ((tilted 900 500)\<lparr>paused := True\<rparr>)
            = Some (Continue c)
        \<and> calls c = calls ((tilted 900 500)\<lparr>paused := True\<rparr>)
        \<and> clock_reads ((tilted 900 500)\<lparr>paused := True\<rparr>) \<le> k \<and> k < clock_reads c
        \<and> joystick_time c = clock_value (resting_board (ticks_of [1000])) k)
   \<and> paused (game_start\<lparr>paused := True, button_queue := [1]\<rparr>)
   \<and> (\<exists>c. input_step (resting_board (ticks_of [1000]))
              (game_start\<lparr>paused := True, button_queue := [1]\<rparr>) = Some (Continue c)
        \<and> calls c = calls (game_start\<lparr>paused := True, button_queue := [1]\<rparr>)
        \<and> button_queue c = [] \<and> paused c)
   \<and> paused (game_start\<lparr>paused := True, serial_queue := [ESCAPE_CHAR]\<rparr>)
   \<and> (\<exists>c. input_step (resting_board (ticks_of [1000]))
              (game_start\<lparr>paused := True, serial_queue := [ESCAPE_CHAR]\<rparr>) = Some (Continue c)
        \<and> serial_queue c = [] \<and> characters_into_escape_sequence c = 1)
   \<and> paused (game_start\<lparr>paused := True, serial_queue := [char_p, char_space]\<rparr>)
   \<and> input_step (resting_board (ticks_of [1000]))
         (game_start\<lparr>paused := True, serial_queue := [char_p, char_space]\<rparr>)
       = Some (Continue (game_start\<lparr>last_drop_time := 1000, serial_queue := [char_space],
                 clock_reads := 1\<rparr>))
   \<and> \<not> paused (game_start\<lparr>last_drop_time := 1000, serial_queue := [char_space],
                 clock_reads := 1\<rparr>)
   \<and> fst (poll_input (game_start\<lparr>paused := True, serial_queue := [char_p, char_space]\<rparr>))
       = no_input
   \<and> characters_into_escape_sequence
         (game_start\<lparr>last_drop_time := 1000, serial_queue := [char_space], clock_reads := 1\<rparr>)
       = 0
   \<and> paused (game_start\<lparr>paused := True\<rparr>)
   \<and> paused_passes (resting_board (ticks_of [1000])) [quiet] (game_start\<lparr>paused := True\<rparr>)
       = Some (game_start\<lparr>paused := True, target_pin := 1, clock_reads := 1\<rparr>)
   \<and> calls (game_start\<lparr>paused := True, target_pin := 1, clock_reads := 1\<rparr>)
       = calls (game_start\<lparr>paused := True\<rparr>)"
proof -
  let ?env = "resting_board (ticks_of [1000])"
  let ?s1 = "(tilted 900 500)\<lparr>paused := True\<rparr>"
  let ?s2 = "game_start\<lparr>paused := True, button_queue := [1]\<rparr>"
  let ?s3 = "game_start\<lparr>paused := True, serial_queue := [ESCAPE_CHAR]\<rparr>"
  let ?s4 = "game_start\<lparr>paused := True, serial_queue := [char_p, char_space]\<rparr>"
  let ?c4 = "game_start\<lparr>last_drop_time := 1000, serial_queue := [char_space],
                 clock_reads := 1\<rparr>"
  let ?s5 = "game_start\<lparr>paused := True\<rparr>"
  let ?c5 = "game_start\<lparr>paused := True, target_pin := 1, clock_reads := 1\<rparr>"
  have p: "paused ?s1" "paused ?s2" "paused ?s3" "paused ?s4" "paused ?s5"
    and r: "\<not> paused ?c4"
    by (simp_all add: fixture_defs)
  have t: "fst (poll_input ?s1) \<noteq> 3 \<and> fst (snd (snd (poll_input ?s1))) \<noteq> char_D
      \<and> 850 < stick_x ?s1
      \<and> (\<forall>k\<ge>clock_reads ?s1. joystick_time ?s1 + 150 < clock_value ?env k)"
    by (simp add: fixture_defs poll_defs)
  have b: "button_queue ?s2 = 1 # [] \<and> (1 :: 8 word) \<noteq> no_input"
    by (simp add: fixture_defs)
  have q: "button_queue ?s3 = [] \<and> serial_queue ?s3 = ESCAPE_CHAR # []"
      "characters_into_escape_sequence ?s3 = 0"
    by (simp_all add: fixture_defs)
  have e4: "input_step ?env ?s4 = Some (Continue ?c4)"
    by (simp add: input_step_def poll_defs process_input_def condition_defs joystick_defs
        toggle_pause_def fixture_defs)
  have e5: "paused_passes ?env [quiet] ?s5 = Some ?c5"
    by (simp add: iteration_def input_step_def poll_defs process_input_def condition_defs
        joystick_defs timer_events_def convert_joystick_def arrive_def fixture_defs)
  have w1: "\<exists>c k. input_step ?env ?s1 = Some (Continue c) \<and> calls c = calls ?s1
        \<and> clock_reads ?s1 \<le> k \<and> k < clock_reads c \<and> joystick_time c = clock_value ?env k"
  proof (rule ex_conj7E [OF paused_pass_consumes_input [OF p(1), of ?env]], goal_cases)
    case (1 c)
    from 1(5) t obtain k where "clock_reads ?s1 \<le> k \<and> k < clock_reads c
        \<and> joystick_time c = clock_value ?env k"
      by blast
    with 1(1,2) show ?case by blast
  qed
  have w2: "\<exists>c. input_step ?env ?s2 = Some (Continue c) \<and> calls c = calls ?s2
        \<and> button_queue c = [] \<and> paused c"
  proof (rule ex_conj7E [OF paused_pass_consumes_input [OF p(2), of ?env]], goal_cases)
    case (1 c)
    from 1(3) b have "button_queue c = [] \<and> paused c" by blast
    with 1(1,2) show ?case by blast
  qed
  have w3: "\<exists>c. input_step ?env ?s3 = Some (Continue c)
        \<and> serial_queue c = [] \<and> characters_into_escape_sequence c = 1"
  proof (rule ex_conj7E [OF paused_pass_consumes_input [OF p(3), of ?env]], goal_cases)
    case (1 c)
    from 1(4) q(1) have "serial_queue c = []
        \<and> characters_into_escape_sequence c =
            (if characters_into_escape_sequence ?s3 = 0 \<and> ESCAPE_CHAR = ESCAPE_CHAR then 1
             else if characters_into_escape_sequence ?s3 = 1 \<and> ESCAPE_CHAR = char_lbracket
                  then 2 else 0)"
      by blast
    then have "serial_queue c = [] \<and> characters_into_escape_sequence c = 1"
      by (simp add: q(2))
    with 1(1) show ?case by blast
  qed
  have w4: "fst (poll_input ?s4) = no_input \<and> characters_into_escape_sequence ?c4 = 0"
  proof (rule ex_conj7E [OF paused_pass_consumes_input [OF p(4), of ?env]], goal_cases)
    case (1 c)
    have "c = ?c4" using 1(1) e4 by simp
    with 1(6) r show ?case by blast
  qed
  have w5: "calls ?c5 = calls ?s5"
  proof (rule ex_conj7E [OF paused_pass_consumes_input [OF p(5), of ?env]], goal_cases)
    case (1 c)
    from 1(7) e5 show ?case by blast
  qed
  show ?thesis
    using p r e4 e5 w1 w2 w3 w4 w5 by blast
qed

section \<open>Pausing and the drop timer\<close>

text \<open>
  Claim C4. Take a pass of a running game that ends with the game paused, any number of
  passes that each end with the game still paused, and then a pass whose input half
  resumes the game. \<open>T1\<close>, the value of \<^verbatim>\<open>paused_time\<close>, is a clock reading taken in
  the pausing pass, and \<open>T2\<close>, the last clock reading of the resuming input half (the
  one its pause branch takes), is taken later. Then \<^verbatim>\<open>last_drop_time\<close> after the
  resuming input half is its value before the pause plus \<open>T2 - T1\<close>; no board call
  was made and no row counted meanwhile; the timer half of the resuming pass makes a
  drop exactly when the clock has reached the shifted \<^verbatim>\<open>last_drop_time\<close> plus the
  interval; and, when \<open>T1 \<le> T2\<close>, at most 20 rows are cleared and nothing wraps around,
  a drop is due at a tick \<open>now\<close> exactly when
  \<open>last_drop_time_before_pause + interval + (T2 - T1) \<le> now\<close>.
\<close>

theorem pause_shifts_last_drop_time:
  assumes run: "\<not> paused s0"
    and episode: "paused_passes env (a0 # as) s0 = Some s1"
    and resume: "input_step env (convert_joystick (adc_reading a) (arrive a s1))
                   = Some (Continue s2)"
    and running: "\<not> paused s2"
  shows "(\<exists>k1. clock_reads s0 \<le> k1 \<and> k1 < clock_reads s2 - 1
            \<and> paused_time s1 = clock_value env k1)
     \<and> last_drop_time s2
         = last_drop_time s0 + (clock_value env (clock_reads s2 - 1) - paused_time s1)
     \<and> calls s2 = calls s0 \<and> tracker s2 = tracker s0
     \<and> (calls (state_of (timer_events env s2)) \<noteq> calls s2 \<longleftrightarrow>
          drop_due (clock_value env (clock_reads s2))
            (last_drop_time s0 + (clock_value env (clock_reads s2 - 1) - paused_time s1))
            (cleared_rows (tracker s0)))
     \<and> (paused_time s1 \<le> clock_value env (clock_reads s2 - 1)
          \<and> unat (cleared_rows (tracker s0)) \<le> 20
          \<and> unat (last_drop_time s0) + (600 - 30 * unat (cleared_rows (tracker s0)))
               + (unat (clock_value env (clock_reads s2 - 1)) - unat (paused_time s1)) < 2 ^ 32
          \<longrightarrow> (drop_due now (last_drop_time s2) (cleared_rows (tracker s2)) \<longleftrightarrow>
                unat (last_drop_time s0) + (600 - 30 * unat (cleared_rows (tracker s0)))
                  + (unat (clock_value env (clock_reads s2 - 1)) - unat (paused_time s1))
                \<le> unat now))"
proof -
  let ?s0 = "convert_joystick (adc_reading a0) (arrive a0 s0)"
  let ?T2 = "clock_value env (clock_reads s2 - 1)"
  obtain c where it: "iteration env (adc_reading a0) (arrive a0 s0) = Some (Continue c)"
    and pc: "paused c" and rest: "paused_passes env as c = Some s1"
    using episode by (auto split: option.splits outcome.splits if_splits)
  obtain c0 where c0: "input_step env ?s0 = Some (Continue c0)" "timer_events env c0 = Continue c"
    using it by (auto simp: iteration_def split: option.splits outcome.splits)
  have pc0: "paused c0"
    using timer_events_keeps_paused [of env c0] c0(2) pc by simp
  have r0: "\<not> paused ?s0" using run by (simp add: convert_joystick_fields arrive_fields)
  obtain k1 where k1: "clock_reads ?s0 \<le> k1" "clock_reads c0 = Suc k1"
      "paused_time c0 = clock_value env k1" "last_drop_time c0 = last_drop_time ?s0"
      "calls c0 = calls ?s0" "tracker c0 = tracker ?s0"
    using pausing_input_step [OF r0 c0(1) pc0] by blast
  have c: "c = c0\<lparr>clock_reads := Suc (clock_reads c0)\<rparr>"
    using c0(2) pc0 by (simp add: timer_events_paused)
  have f: "paused s1" "last_drop_time s1 = last_drop_time c" "paused_time s1 = paused_time c"
      "tracker s1 = tracker c" "calls s1 = calls c" "clock_reads c \<le> clock_reads s1"
    using paused_passes_frame [OF pc rest] by simp_all
  let ?s1 = "convert_joystick (adc_reading a) (arrive a s1)"
  have p1: "paused ?s1" using f(1) by (simp add: convert_joystick_fields arrive_fields)
  have g: "clock_reads ?s1 < clock_reads s2"
      "last_drop_time s2 = last_drop_time ?s1 + (?T2 - paused_time ?s1)"
      "calls s2 = calls ?s1" "tracker s2 = tracker ?s1"
    using resuming_input_step [OF p1 resume running] by simp_all
  have r1: "clock_reads ?s1 = clock_reads s1" "clock_reads ?s0 = clock_reads s0"
    by (simp_all add: convert_joystick_fields arrive_def)
  have a1: "clock_reads s0 \<le> k1 \<and> k1 < clock_reads s2 - 1 \<and> paused_time s1 = clock_value env k1"
    using k1(1,2,3) f(3,6) g(1) c r1 by simp
  have a2: "last_drop_time s2 = last_drop_time s0 + (?T2 - paused_time s1)"
    using g(2) f(2) k1(4) c by (simp add: convert_joystick_fields arrive_fields)
  have a3: "calls s2 = calls s0" "tracker s2 = tracker s0"
    using g(3,4) f(4,5) k1(5,6) c by (simp_all add: convert_joystick_fields arrive_fields)
  have a4: "calls (state_of (timer_events env s2)) \<noteq> calls s2 \<longleftrightarrow>
      drop_due (clock_value env (clock_reads s2)) (last_drop_time s0 + (?T2 - paused_time s1))
        (cleared_rows (tracker s0))"
    using timer_events_drops_iff_due [OF running, of env] a2 a3(2) by simp
  have a5: "drop_due now (last_drop_time s2) (cleared_rows (tracker s2)) \<longleftrightarrow>
      unat (last_drop_time s0) + (600 - 30 * unat (cleared_rows (tracker s0)))
        + (unat ?T2 - unat (paused_time s1)) \<le> unat now"
    if "paused_time s1 \<le> ?T2 \<and> unat (cleared_rows (tracker s0)) \<le> 20
        \<and> unat (last_drop_time s0) + (600 - 30 * unat (cleared_rows (tracker s0)))
             + (unat ?T2 - unat (paused_time s1)) < 2 ^ 32"
  proof -
    have h1: "paused_time s1 \<le> ?T2" using that by (rule conjunct1)
    have h2: "unat (cleared_rows (tracker s0)) \<le> 20"
      using that by (elim conjE)
    have h3: "unat (last_drop_time s0) + (600 - 30 * unat (cleared_rows (tracker s0)))
             + (unat ?T2 - unat (paused_time s1)) < 2 ^ 32"
      using that by (elim conjE)
    show ?thesis
      unfolding a2 a3(2) by (rule shifted_drop_due [OF h1 h2 h3])
  qed
  show ?thesis
    using a1 a2 a3 a4 a5 by blast
qed

text \<open>A game paused at tick 100 and resumed at tick 500, with the last drop at tick 0: the next drop is due from tick 1000 on.\<close>

theorem pause_shifts_last_drop_time_witness:
  "\<not> paused game_start
   \<and> paused_passes (resting_board (ticks_of [100, 100, 200, 500, 500]))
         [key_press char_p, quiet] game_start
       = Some (game_start\<lparr>paused := True, paused_time := 100, clock_reads := 3\<rparr>)
   \<and> input_step (resting_board (ticks_of [100, 100, 200, 500, 500]))
         (convert_joystick (adc_reading (key_press char_p))
           (arrive (key_press char_p)
             (game_start\<lparr>paused := True, paused_time := 100, clock_reads := 3\<rparr>)))
       = Some (Continue (game_start\<lparr>last_drop_time := 400, paused_time := 100,
                 target_pin := 1, clock_reads := 4\<rparr>))
   \<and> \<not> paused (game_start\<lparr>last_drop_time := 400, paused_time := 100,
                 target_pin := 1, clock_reads := 4\<rparr>)
   \<and> last_drop_time (game_start\<lparr>last_drop_time := 400, paused_time := 100,
                 target_pin := 1, clock_reads := 4\<rparr>)
       = last_drop_time game_start + (500 - 100)
   \<and> \<not> drop_due 999
         (last_drop_time (game_start\<lparr>last_drop_time := 400, paused_time := 100,
                 target_pin := 1, clock_reads := 4\<rparr>))
         (cleared_rows (tracker (game_start\<lparr>last_drop_time := 400, paused_time := 100,
                 target_pin := 1, clock_reads := 4\<rparr>)))
   \<and> drop_due 1000
         (last_drop_time (game_start\<lparr>last_drop_time := 400, paused_time := 100,
                 target_pin := 1, clock_reads := 4\<rparr>))
         (cleared_rows (tracker (game_start\<lparr>last_drop_time := 400, paused_time := 100,
                 target_pin := 1, clock_reads := 4\<rparr>)))"
proof -
  let ?env = "resting_board (ticks_of [100, 100, 200, 500, 500])"
  let ?s1 = "game_start\<lparr>paused := True, paused_time := 100, clock_reads := 3\<rparr>"
  let ?s2 = "game_start\<lparr>last_drop_time := 400, paused_time := 100,
                 target_pin := 1, clock_reads := 4\<rparr>"
  have h1: "\<not> paused game_start" by (simp add: fixture_defs)
  have h2: "paused_passes ?env [key_press char_p, quiet] game_start = Some ?s1"
    by (simp add: iteration_def input_step_def poll_defs process_input_def condition_defs
        joystick_defs toggle_pause_def timer_events_def convert_joystick_def arrive_def
        fixture_defs)
  have h3: "input_step ?env (convert_joystick (adc_reading (key_press char_p))
              (arrive (key_press char_p) ?s1)) = Some (Continue ?s2)"
    by (simp add: input_step_def poll_defs process_input_def condition_defs
        joystick_defs toggle_pause_def convert_joystick_def arrive_def fixture_defs)
  have h4: "\<not> paused ?s2" by (simp add: fixture_defs)
  have v: "clock_value ?env (clock_reads ?s2 - 1) = 500" "paused_time ?s1 = 100"
      "cleared_rows (tracker game_start) = 0" "last_drop_time game_start = 0"
    by (simp_all add: fixture_defs)
  note t = pause_shifts_last_drop_time [OF h1 h2 h3 h4]
  have a: "last_drop_time ?s2 = last_drop_time game_start + (500 - 100)"
    using t [of 0] by (simp only: v)
  have b: "\<not> drop_due 999 (last_drop_time ?s2) (cleared_rows (tracker ?s2))"
    using t [of 999] by (simp add: v)
  have c: "drop_due 1000 (last_drop_time ?s2) (cleared_rows (tracker ?s2))"
    using t [of 1000] by (simp add: v)
  show ?thesis using h1 h2 h3 h4 a b c by blast
qed

section \<open>Escape sequences\<close>

text \<open>
  Claim C5. In the input half of a pass of a running game, with no button waiting and the
  joystick centred: ESC in state 0 is consumed and the state becomes 1; \<^verbatim>\<open>[\<close> in
  state 1 is consumed and the state becomes 2; \<^verbatim>\<open>D\<close> in state 2 makes the pass call
  \<^verbatim>\<open>attempt_move(MOVE_LEFT)\<close>, once, and the state becomes 0. So the three bytes
  ESC, \<^verbatim>\<open>[\<close>, \<^verbatim>\<open>D\<close>, one per pass, give exactly one move to the left. A final byte
  other than \<^verbatim>\<open>A\<close>, \<^verbatim>\<open>B\<close>, \<^verbatim>\<open>C\<close> and \<^verbatim>\<open>D\<close> gives no command and the state
  becomes 0. A byte other than \<^verbatim>\<open>[\<close> in state 1 puts the state back to 0 and is
  handled in the same pass as the same byte is in state 0 (ESC apart, which is dropped
  here): it is ignored when it is neither a space nor \<^verbatim>\<open>p\<close> nor \<^verbatim>\<open>P\<close>, it toggles
  the pause when it is \<^verbatim>\<open>p\<close> or \<^verbatim>\<open>P\<close>, and it is a hard drop when it is a space.
\<close>

theorem escape_sequence_decoding:
  assumes "\<not> paused s" "button_queue s = []" "joystick_centred s"
  shows "input_step env (s\<lparr>characters_into_escape_sequence := 0, serial_queue := ESCAPE_CHAR # q\<rparr>)
       = Some (Continue (s\<lparr>characters_into_escape_sequence := 1, serial_queue := q\<rparr>))
     \<and> input_step env (s\<lparr>characters_into_escape_sequence := 1, serial_queue := char_lbracket # q\<rparr>)
       = Some (Continue (s\<lparr>characters_into_escape_sequence := 2, serial_queue := q\<rparr>))
     \<and> input_step env (s\<lparr>characters_into_escape_sequence := 2, serial_queue := char_D # q\<rparr>)
       = Some (Continue (attempt_move MOVE_LEFT
               (s\<lparr>characters_into_escape_sequence := 0, serial_queue := q\<rparr>)))
     \<and> (x \<notin> {char_A, char_B, char_C, char_D} \<longrightarrow>
          input_step env (s\<lparr>characters_into_escape_sequence := 2, serial_queue := x # q\<rparr>)
            = Some (Continue (s\<lparr>characters_into_escape_sequence := 0, serial_queue := q\<rparr>)))
     \<and> (y \<noteq> char_lbracket \<and> y \<noteq> ESCAPE_CHAR \<longrightarrow>
          input_step env (s\<lparr>characters_into_escape_sequence := 1, serial_queue := y # q\<rparr>)
            = input_step env (s\<lparr>characters_into_escape_sequence := 0, serial_queue := y # q\<rparr>))
     \<and> (y \<notin> {char_lbracket, char_space, char_p, char_P} \<longrightarrow>
          input_step env (s\<lparr>characters_into_escape_sequence := 1, serial_queue := y # q\<rparr>)
            = Some (Continue (s\<lparr>characters_into_escape_sequence := 0, serial_queue := q\<rparr>)))
     \<and> (y \<in> {char_p, char_P} \<longrightarrow>
          input_step env (s\<lparr>characters_into_escape_sequence := 1, serial_queue := y # q\<rparr>)
            = Some (Continue (toggle_pause env
                (s\<lparr>characters_into_escape_sequence := 0, serial_queue := q\<rparr>))))
     \<and> input_step env (s\<lparr>characters_into_escape_sequence := 1, serial_queue := char_space # q\<rparr>)
       = (case drop_until_failure env (s\<lparr>characters_into_escape_sequence := 0, serial_queue := q\<rparr>) of
            None \<Rightarrow> None
          | Some s5 \<Rightarrow>
              (let (room, s6) = fix_block_to_board_and_add_new_block env s5 in
               if \<not> room then Some (GameOver s6) else Some (Continue s6)))"
proof -
  have c: "\<not> paused (s\<lparr>characters_into_escape_sequence := n, serial_queue := r\<rparr>)"
    "joystick_centred (s\<lparr>characters_into_escape_sequence := n, serial_queue := r\<rparr>)" for n r
    using assms by (simp_all add: joystick_centred_def)
  have step: "input_step env (s\<lparr>characters_into_escape_sequence := n, serial_queue := z # r\<rparr>)
      = process_input env no_input
          (if n = 0 \<and> z = ESCAPE_CHAR then no_input
           else if n = 1 \<and> z = char_lbracket then no_input
           else if n = 2 then no_input else z)
          (if n = 2 then z else no_input)
          (s\<lparr>characters_into_escape_sequence :=
               (if n = 0 \<and> z = ESCAPE_CHAR then 1
                else if n = 1 \<and> z = char_lbracket then 2 else 0),
             serial_queue := r\<rparr>)" for n z r
    using assms(2)
    by (simp add: input_step_def
        poll_input_serial [of "s\<lparr>characters_into_escape_sequence := n, serial_queue := z # r\<rparr>" z r])
  show ?thesis
    by (simp add: step process_input_centred [OF c])
qed

text \<open>The bytes ESC, \<^verbatim>\<open>[\<close>, \<^verbatim>\<open>D\<close> in three passes; \<^verbatim>\<open>X\<close> as the last byte of a sequence; \<^verbatim>\<open>A\<close> and \<^verbatim>\<open>p\<close> right after ESC.\<close>

theorem escape_sequence_decoding_witness:
  "\<not> paused game_start \<and> button_queue game_start = [] \<and> joystick_centred game_start
   \<and> input_step (resting_board (ticks_of [1000]))
         (game_start\<lparr>characters_into_escape_sequence := 0,
            serial_queue := [ESCAPE_CHAR, char_lbracket, char_D]\<rparr>)
       = Some (Continue (game_start\<lparr>characters_into_escape_sequence := 1,
            serial_queue := [char_lbracket, char_D]\<rparr>))
   \<and> input_step (resting_board (ticks_of [1000]))
         (game_start\<lparr>characters_into_escape_sequence := 1,
            serial_queue := [char_lbracket, char_D]\<rparr>)
       = Some (Continue (game_start\<lparr>characters_into_escape_sequence := 2,
            serial_queue := [char_D]\<rparr>))
   \<and> input_step (resting_board (ticks_of [1000]))
         (game_start\<lparr>characters_into_escape_sequence := 2, serial_queue := [char_D]\<rparr>)
       = Some (Continue (attempt_move MOVE_LEFT
           (game_start\<lparr>characters_into_escape_sequence := 0, serial_queue := []\<rparr>)))
   \<and> (88 :: 8 word) \<notin> {char_A, char_B, char_C, char_D}
   \<and> input_step (resting_board (ticks_of [1000]))
         (game_start\<lparr>characters_into_escape_sequence := 2, serial_queue := [88]\<rparr>)
       = Some (Continue (game_start\<lparr>characters_into_escape_sequence := 0, serial_queue := []\<rparr>))
   \<and> char_A \<notin> {char_lbracket, char_space, char_p, char_P}
   \<and> input_step (resting_board (ticks_of [1000]))
         (game_start\<lparr>characters_into_escape_sequence := 1, serial_queue := [char_A]\<rparr>)
       = Some (Continue (game_start\<lparr>characters_into_escape_sequence := 0, serial_queue := []\<rparr>))
   \<and> char_p \<in> {char_p, char_P}
   \<and> input_step (resting_board (ticks_of [1000]))
         (game_start\<lparr>characters_into_escape_sequence := 1, serial_queue := [char_p]\<rparr>)
       = Some (Continue (toggle_pause (resting_board (ticks_of [1000]))
           (game_start\<lparr>characters_into_escape_sequence := 0, serial_queue := []\<rparr>)))"
proof -
  have h: "\<not> paused game_start" "button_queue game_start = []" "joystick_centred game_start"
    by (simp_all add: fixture_defs joystick_centred_def)
  have x: "(88 :: 8 word) \<notin> {char_A, char_B, char_C, char_D}"
    and y: "char_A \<notin> {char_lbracket, char_space, char_p, char_P}"
    and z: "char_p \<in> {char_p, char_P}"
    by simp_all
  note t = escape_sequence_decoding [OF h]
  show ?thesis
    using h x y z
      t [where env = "resting_board (ticks_of [1000])" and q = "[char_lbracket, char_D]"]
      t [where env = "resting_board (ticks_of [1000])" and q = "[char_D]"]
      t [where env = "resting_board (ticks_of [1000])" and q = "[]" and x = 88 and y = char_A]
      t [where env = "resting_board (ticks_of [1000])" and q = "[]" and y = char_p]
    by blast
qed

section \<open>Button precedence\<close>

text \<open>
  Claim C6, as stated, fails: the joystick checks are not skipped when a button is
  waiting. With button 1 (hard drop) waiting and the joystick held left in a running
  game, \<^verbatim>\<open>is_left()\<close> is called before \<^verbatim>\<open>button==1\<close> is looked at; it fires, the
  pass moves the block left, and the button event is gone. With the joystick centred the
  same button gives the hard drop.
\<close>

theorem button_1_preempted_by_left_tilt:
  "input_step (resting_board (ticks_of [1000])) ((tilted 900 500)\<lparr>button_queue := [1]\<rparr>)
     = Some (Continue ((tilted 900 500)\<lparr>joystick_time := 1000, clock_reads := 2,
          calls := [AttemptMove MOVE_LEFT]\<rparr>))
   \<and> dispatched ((tilted 900 500)\<lparr>button_queue := [1]\<rparr>)
       (input_step (resting_board (ticks_of [1000])) ((tilted 900 500)\<lparr>button_queue := [1]\<rparr>))
     = Some [AttemptMove MOVE_LEFT]
   \<and> dispatched (game_start\<lparr>button_queue := [1]\<rparr>)
       (input_step (resting_board (ticks_of [1000])) (game_start\<lparr>button_queue := [1]\<rparr>))
     = Some [AttemptDropOneRow, FixBlockAndAddNew]"
  by (simp add: input_step_def poll_defs process_input_def condition_defs joystick_defs
      dispatched_def board_defs fixture_defs drop_until_failure.simps)

text \<open>
  Claim C6, amended. When a button event (0 to 3) is waiting, the input half of the pass
  takes it from the queue and leaves the serial side alone: the serial queue and the
  escape decoder state are as before, so a waiting byte is read in a later pass. In a
  running game button 3 always moves the block left; and when the joystick is centred,
  the command of the pass is the button's: button 3 moves left, button 0 moves right,
  button 2 rotates and button 1 is the hard drop.
\<close>

theorem button_precedence:
  assumes "button_queue s = b # bs" "b \<in> {0, 1, 2, 3}"
  shows "(\<forall>out. input_step env s = Some out \<longrightarrow>
            serial_queue (state_of out) = serial_queue s
            \<and> characters_into_escape_sequence (state_of out) = characters_into_escape_sequence s
            \<and> button_queue (state_of out) = bs)
     \<and> (\<not> paused s \<and> b = 3 \<longrightarrow>
          input_step env s = Some (Continue (attempt_move MOVE_LEFT (s\<lparr>button_queue := bs\<rparr>))))
     \<and> (\<not> paused s \<and> joystick_centred s \<longrightarrow>
          input_step env s =
            (if b = 3 then Some (Continue (attempt_move MOVE_LEFT (s\<lparr>button_queue := bs\<rparr>)))
             else if b = 0 then Some (Continue (attempt_move MOVE_RIGHT (s\<lparr>button_queue := bs\<rparr>)))
             else if b = 2 then Some (Continue (attempt_rotation (s\<lparr>button_queue := bs\<rparr>)))
             else
               (case drop_until_failure env (s\<lparr>button_queue := bs\<rparr>) of
                  None \<Rightarrow> None
                | Some s5 \<Rightarrow>
                    (let (room, s6) = fix_block_to_board_and_add_new_block env s5 in
                     if \<not> room then Some (GameOver s6) else Some (Continue s6)))))"
proof -
  let ?s = "s\<lparr>button_queue := bs\<rparr>"
  have nb: "b \<noteq> no_input" using assms(2) by auto
  have poll: "poll_input s = (b, no_input, no_input, ?s)"
    by (rule poll_input_button [OF assms(1) nb])
  have step: "input_step env s = process_input env b no_input no_input ?s"
    by (simp add: input_step_def poll)
  have a1: "serial_queue (state_of out) = serial_queue s
        \<and> characters_into_escape_sequence (state_of out) = characters_into_escape_sequence s
        \<and> button_queue (state_of out) = bs" if "input_step env s = Some out" for out
    using process_input_queues [of env b no_input no_input ?s out] that step by simp
  have a2: "input_step env s = Some (Continue (attempt_move MOVE_LEFT ?s))"
    if "\<not> paused s \<and> b = 3"
    using that by (simp add: step process_input_def left_condition_def)
  have a3: "input_step env s =
            (if b = 3 then Some (Continue (attempt_move MOVE_LEFT ?s))
             else if b = 0 then Some (Continue (attempt_move MOVE_RIGHT ?s))
             else if b = 2 then Some (Continue (attempt_rotation ?s))
             else
               (case drop_until_failure env ?s of
                  None \<Rightarrow> None
                | Some s5 \<Rightarrow>
                    (let (room, s6) = fix_block_to_board_and_add_new_block env s5 in
                     if \<not> room then Some (GameOver s6) else Some (Continue s6))))"
    if "\<not> paused s \<and> joystick_centred s"
  proof -
    have c: "\<not> paused ?s" "joystick_centred ?s"
      using that by (simp_all add: joystick_centred_def)
    show ?thesis
      using assms(2) by (auto simp: step process_input_centred [OF c])
  qed
  show ?thesis using a1 a2 a3 by blast
qed


text \<open>Button 0 waiting together with the byte \<^verbatim>\<open>p\<close>; and button 3 waiting with the joystick held left.\<close>

theorem button_precedence_witness:
  "button_queue (game_start\<lparr>button_queue := [0], serial_queue := [char_p]\<rparr>) = 0 # []
   \<and> (0 :: 8 word) \<in> {0, 1, 2, 3}
   \<and> \<not> paused (game_start\<lparr>button_queue := [0], serial_queue := [char_p]\<rparr>)
   \<and> joystick_centred (game_start\<lparr>button_queue := [0], serial_queue := [char_p]\<rparr>)
   \<and> input_step (resting_board (ticks_of [1000]))
         (game_start\<lparr>button_queue := [0], serial_queue := [char_p]\<rparr>)
       = Some (Continue (attempt_move MOVE_RIGHT
           (game_start\<lparr>button_queue := [0], serial_queue := [char_p],
              button_queue := []\<rparr>)))
   \<and> serial_queue (state_of (Continue (attempt_move MOVE_RIGHT
           (game_start\<lparr>button_queue := [0], serial_queue := [char_p],
              button_queue := []\<rparr>))))
       = serial_queue (game_start\<lparr>button_queue := [0], serial_queue := [char_p]\<rparr>)
   \<and> button_queue ((tilted 900 500)\<lparr>button_queue := [3]\<rparr>) = 3 # []
   \<and> (3 :: 8 word) \<in> {0, 1, 2, 3}
   \<and> \<not> paused ((tilted 900 500)\<lparr>button_queue := [3]\<rparr>)
   \<and> input_step (resting_board (ticks_of [1000])) ((tilted 900 500)\<lparr>button_queue := [3]\<rparr>)
       = Some (Continue (attempt_move MOVE_LEFT
           ((tilted 900 500)\<lparr>button_queue := [3], button_queue := []\<rparr>)))"
proof -
  let ?env = "resting_board (ticks_of [1000])"
  let ?s = "game_start\<lparr>button_queue := [0], serial_queue := [char_p]\<rparr>"
  let ?t = "(tilted 900 500)\<lparr>button_queue := [3]\<rparr>"
  have h: "button_queue ?s = 0 # []" "(0 :: 8 word) \<in> {0, 1, 2, 3}"
    and g: "\<not> paused ?s" "joystick_centred ?s"
    and h': "button_queue ?t = 3 # []" "(3 :: 8 word) \<in> {0, 1, 2, 3}"
    and g': "\<not> paused ?t"
    by (simp_all add: fixture_defs joystick_centred_def)
  note a = button_precedence [OF h, of ?env] and b = button_precedence [OF h', of ?env]
  have 1: "input_step ?env ?s
      = Some (Continue (attempt_move MOVE_RIGHT (?s\<lparr>button_queue := []\<rparr>)))"
    using a g by simp
  have 2: "serial_queue (state_of (Continue (attempt_move MOVE_RIGHT (?s\<lparr>button_queue := []\<rparr>))))
      = serial_queue ?s"
    using a 1 by blast
  have 3: "input_step ?env ?t
      = Some (Continue (attempt_move MOVE_LEFT (?t\<lparr>button_queue := []\<rparr>)))"
    using b g' by simp
  show ?thesis using h g h' g' 1 2 3 by blast
qed

section \<open>Hard drop and the timer\<close>

text \<open>
  Claim C7. The hard drop does repeat the one-row drop until it fails and then fixes the
  block once (\<open>hard_drop_repeats_until_failure\<close>). But it does not set
  \<^verbatim>\<open>last_drop_time\<close>, as the soft drop and the timer do, so a hard drop and a timer
  drop do occur in one pass though the manual drop has not advanced
  \<^verbatim>\<open>last_drop_time\<close>. Here button 1 is waiting at tick 1000, 1000 ticks after the last
  drop, on a board where the block rests already: the input half makes the hard drop and
  leaves \<^verbatim>\<open>last_drop_time\<close> at 0, and the timer half of the same pass drops the new
  block. After a soft drop (cursor down) in the same situation \<^verbatim>\<open>last_drop_time\<close> is
  1000 and the timer does nothing.
\<close>

theorem hard_drop_leaves_last_drop_time:
  "input_step (resting_board (ticks_of [1000])) (game_start\<lparr>button_queue := [1]\<rparr>)
     = Some (Continue (game_start\<lparr>calls := [AttemptDropOneRow, FixBlockAndAddNew]\<rparr>))
   \<and> last_drop_time (game_start\<lparr>calls := [AttemptDropOneRow, FixBlockAndAddNew]\<rparr>) = 0
   \<and> iteration (resting_board (ticks_of [1000])) 500 (game_start\<lparr>button_queue := [1]\<rparr>)
     = Some (Continue (game_start\<lparr>last_drop_time := 1000, target_pin := 1, clock_reads := 2,
          calls := [AttemptDropOneRow, FixBlockAndAddNew,
                    AttemptDropOneRow, FixBlockAndAddNew]\<rparr>))
   \<and> iteration (resting_board (ticks_of [1000])) 500
       (game_start\<lparr>characters_into_escape_sequence := 2, serial_queue := [char_B]\<rparr>)
     = Some (Continue (game_start\<lparr>last_drop_time := 1000, target_pin := 1, clock_reads := 2,
          calls := [AttemptDropOneRow, FixBlockAndAddNew]\<rparr>))"
  by (simp add: iteration_def input_step_def poll_defs process_input_def condition_defs
      joystick_defs board_defs timer_events_def drop_due_def drop_interval_def
      get_cleared_rows_def convert_joystick_def fixture_defs drop_until_failure.simps)

end
